theory Spec2Isabelle
  imports Complex_Main "HOL-Library.AList"
begin

section \<open>Values of the interpreter\<close>

text \<open>
  A Python \<open>str\<close> is a sequence of code points, a \<open>bytes\<close> object a sequence of
  8-bit characters. \<open>str_of\<close> reads an ASCII literal of this text as a \<open>str\<close>.
\<close>

type_synonym str = "nat list"
type_synonym bytes = "char list"

definition str_of :: "string \<Rightarrow> str" where
  "str_of = map of_char"

text \<open>
  The exceptions the modelled code can raise. \<open>JSONDecodeError\<close> is a subclass of
  \<open>ValueError\<close> in the interpreter; the model keeps the two apart.
\<close>

datatype error =
    UnicodeDecodeError
  | UnicodeEncodeError
  | JSONDecodeError
  | RecursionError
  | KeyError
  | TypeError
  | ValueError
  | AttributeError
  | OverflowError

text \<open>
  What \<open>json.loads\<close> returns and \<open>json.dumps\<close> accepts: \<open>None\<close>, booleans,
  integers, strings, lists and string-keyed dictionaries. A dictionary is the list of its
  items in insertion order. Floating point is not modelled: a float is kept as the
  literal it was read from.
\<close>

datatype json =
    JNull
  | JBool bool
  | JInt int
  | JFloat str
  | JStr str
  | JArr "json list"
  | JObj "(str \<times> json) list"

text \<open>\<open>d[k] = v\<close> on a dictionary is \<open>AList.update k v d\<close>; \<open>dict(pairs)\<close> stores
  the pairs one after the other.\<close>

definition dict :: "(str \<times> json) list \<Rightarrow> (str \<times> json) list" where
  "dict pairs = foldl (\<lambda>d (k, v). AList.update k v d) [] pairs"

section \<open>UTF-8\<close>

text \<open>\<open>bytes.decode('utf-8')\<close>, strict: shortest forms only, no surrogates, nothing
  above U+10FFFF.\<close>

definition is_cont :: "nat \<Rightarrow> bool" where
  "is_cont b \<longleftrightarrow> 0x80 \<le> b \<and> b \<le> 0xBF"

fun utf8_dec :: "nat list \<Rightarrow> error + str" where
  "utf8_dec [] = Inr []"
| "utf8_dec (b # bs) =
    (if b < 0x80 then map_sum id (Cons b) (utf8_dec bs)
     else if 0xC2 \<le> b \<and> b \<le> 0xDF then
       (case bs of
          b1 # r \<Rightarrow>
            if is_cont b1
            then map_sum id (Cons ((b - 0xC0) * 0x40 + (b1 - 0x80))) (utf8_dec r)
            else Inl UnicodeDecodeError
        | _ \<Rightarrow> Inl UnicodeDecodeError)
     else if 0xE0 \<le> b \<and> b \<le> 0xEF then
       (case bs of
          b1 # b2 # r \<Rightarrow>
            if (if b = 0xE0 then 0xA0 else 0x80) \<le> b1
               \<and> b1 \<le> (if b = 0xED then 0x9F else 0xBF) \<and> is_cont b2
            then map_sum id
                   (Cons ((b - 0xE0) * 0x1000 + (b1 - 0x80) * 0x40 + (b2 - 0x80)))
                   (utf8_dec r)
            else Inl UnicodeDecodeError
        | _ \<Rightarrow> Inl UnicodeDecodeError)
     else if 0xF0 \<le> b \<and> b \<le> 0xF4 then
       (case bs of
          b1 # b2 # b3 # r \<Rightarrow>
            if (if b = 0xF0 then 0x90 else 0x80) \<le> b1
               \<and> b1 \<le> (if b = 0xF4 then 0x8F else 0xBF) \<and> is_cont b2 \<and> is_cont b3
            then map_sum id
                   (Cons ((b - 0xF0) * 0x40000 + (b1 - 0x80) * 0x1000
                          + (b2 - 0x80) * 0x40 + (b3 - 0x80)))
                   (utf8_dec r)
            else Inl UnicodeDecodeError
        | _ \<Rightarrow> Inl UnicodeDecodeError)
     else Inl UnicodeDecodeError)"

definition utf8_decode :: "bytes \<Rightarrow> error + str" where
  "utf8_decode data = utf8_dec (map of_char data)"

text \<open>\<open>str.encode('utf-8')\<close>: a surrogate code point cannot be encoded.\<close>

definition utf8_enc1 :: "nat \<Rightarrow> error + nat list" where
  "utf8_enc1 c =
    (if c < 0x80 then Inr [c]
     else if c < 0x800 then Inr [0xC0 + c div 0x40, 0x80 + c mod 0x40]
     else if 0xD800 \<le> c \<and> c \<le> 0xDFFF then Inl UnicodeEncodeError
     else if c < 0x10000 then
       Inr [0xE0 + c div 0x1000, 0x80 + c div 0x40 mod 0x40, 0x80 + c mod 0x40]
     else if c < 0x110000 then
       Inr [0xF0 + c div 0x40000, 0x80 + c div 0x1000 mod 0x40,
            0x80 + c div 0x40 mod 0x40, 0x80 + c mod 0x40]
     else Inl UnicodeEncodeError)"

fun utf8_enc :: "str \<Rightarrow> error + nat list" where
  "utf8_enc [] = Inr []"
| "utf8_enc (c # cs) =
    (case utf8_enc1 c of
       Inl e \<Rightarrow> Inl e
     | Inr bs \<Rightarrow> map_sum id ((@) bs) (utf8_enc cs))"

definition utf8_encode :: "str \<Rightarrow> error + bytes" where
  "utf8_encode s = map_sum id (map char_of) (utf8_enc s)"

section \<open>json.dumps\<close>

text \<open>
  The encoder with its defaults: \<open>ensure_ascii\<close>, item separator \<open>", "\<close>, key
  separator \<open>": "\<close>. Integers are unbounded; the interpreter's limit on the length of
  a decimal conversion is not modelled.
\<close>

definition hexdigit :: "nat \<Rightarrow> nat" where
  "hexdigit d = (if d < 10 then 48 + d else 87 + d)"

definition hex4 :: "nat \<Rightarrow> str" where
  "hex4 n = [hexdigit (n div 0x1000 mod 16), hexdigit (n div 0x100 mod 16),
             hexdigit (n div 0x10 mod 16), hexdigit (n mod 16)]"

definition escape_char :: "nat \<Rightarrow> str" where
  "escape_char c =
    (if c = 92 then [92, 92]
     else if c = 34 then [92, 34]
     else if c = 8 then [92, 98]
     else if c = 12 then [92, 102]
     else if c = 10 then [92, 110]
     else if c = 13 then [92, 114]
     else if c = 9 then [92, 116]
     else if 32 \<le> c \<and> c \<le> 126 then [c]
     else if c < 0x10000 then [92, 117] @ hex4 c
     else [92, 117] @ hex4 (0xD800 + (c - 0x10000) div 0x400 mod 0x400)
          @ [92, 117] @ hex4 (0xDC00 + (c - 0x10000) mod 0x400))"

definition encode_basestring_ascii :: "str \<Rightarrow> str" where
  "encode_basestring_ascii s = [34] @ concat (map escape_char s) @ [34]"

fun digits_of :: "nat \<Rightarrow> str" where
  "digits_of n = (if n < 10 then [48 + n] else digits_of (n div 10) @ [48 + n mod 10])"

declare digits_of.simps [simp del]

definition int_repr :: "int \<Rightarrow> str" where
  "int_repr i = (if i < 0 then 45 # digits_of (nat (- i)) else digits_of (nat i))"

fun join :: "str \<Rightarrow> str list \<Rightarrow> str" where
  "join sep [] = []"
| "join sep [x] = x"
| "join sep (x # y # ys) = x @ sep @ join sep (y # ys)"

fun json_dumps :: "json \<Rightarrow> str" where
  "json_dumps JNull = str_of ''null''"
| "json_dumps (JBool b) = (if b then str_of ''true'' else str_of ''false'')"
| "json_dumps (JInt i) = int_repr i"
| "json_dumps (JFloat lit) = lit"
| "json_dumps (JStr s) = encode_basestring_ascii s"
| "json_dumps (JArr vs) = [91] @ join (str_of '', '') (map json_dumps vs) @ [93]"
| "json_dumps (JObj kvs) =
    [123]
    @ join (str_of '', '')
        (map (\<lambda>(k, v). encode_basestring_ascii k @ str_of '': '' @ json_dumps v) kvs)
    @ [125]"

section \<open>json.loads\<close>

definition is_ws :: "nat \<Rightarrow> bool" where
  "is_ws c \<longleftrightarrow> c = 32 \<or> c = 9 \<or> c = 10 \<or> c = 13"

definition skip_ws :: "str \<Rightarrow> str" where
  "skip_ws = dropWhile is_ws"

definition is_digit :: "nat \<Rightarrow> bool" where
  "is_digit c \<longleftrightarrow> 48 \<le> c \<and> c \<le> 57"

definition hexval :: "nat \<Rightarrow> nat option" where
  "hexval c =
    (if 48 \<le> c \<and> c \<le> 57 then Some (c - 48)
     else if 97 \<le> c \<and> c \<le> 102 then Some (c - 87)
     else if 65 \<le> c \<and> c \<le> 70 then Some (c - 55)
     else None)"

text \<open>The four hexadecimal digits of a \<open>\uXXXX\<close> escape.\<close>

definition decode_uXXXX :: "str \<Rightarrow> nat option" where
  "decode_uXXXX s =
    (case s of
       a # b # c # d # _ \<Rightarrow>
         (case (hexval a, hexval b, hexval c, hexval d) of
            (Some w, Some x, Some y, Some z) \<Rightarrow> Some (((w * 16 + x) * 16 + y) * 16 + z)
          | _ \<Rightarrow> None)
     | _ \<Rightarrow> None)"

definition backslash :: "nat \<Rightarrow> nat option" where
  "backslash esc =
    (if esc = 34 then Some 34
     else if esc = 92 then Some 92
     else if esc = 47 then Some 47
     else if esc = 98 then Some 8
     else if esc = 102 then Some 12
     else if esc = 110 then Some 10
     else if esc = 114 then Some 13
     else if esc = 116 then Some 9
     else None)"

definition cons_str :: "nat \<Rightarrow> error + (str \<times> str) \<Rightarrow> error + (str \<times> str)" where
  "cons_str c r = (case r of Inl e \<Rightarrow> Inl e | Inr (s, rest) \<Rightarrow> Inr (c # s, rest))"

text \<open>
  \<open>scanstring\<close> in strict mode, from the character after the opening quote: the
  string's content and what follows the closing quote. A high surrogate escape directly
  followed by a low surrogate escape is one code point.
\<close>

function scanstring :: "str \<Rightarrow> error + (str \<times> str)" where
  "scanstring [] = Inl JSONDecodeError"
| "scanstring (c # s) =
    (if c = 34 then Inr ([], s)
     else if c = 92 then
       (case s of
          [] \<Rightarrow> Inl JSONDecodeError
        | esc # s1 \<Rightarrow>
            if esc \<noteq> 117 then
              (case backslash esc of
                 None \<Rightarrow> Inl JSONDecodeError
               | Some ch \<Rightarrow> cons_str ch (scanstring s1))
            else
              (case decode_uXXXX s1 of
                 None \<Rightarrow> Inl JSONDecodeError
               | Some uni \<Rightarrow>
                   if 0xD800 \<le> uni \<and> uni \<le> 0xDBFF \<and> take 2 (drop 4 s1) = [92, 117] then
                     (case decode_uXXXX (drop 6 s1) of
                        None \<Rightarrow> Inl JSONDecodeError
                      | Some uni2 \<Rightarrow>
                          if 0xDC00 \<le> uni2 \<and> uni2 \<le> 0xDFFF
                          then cons_str (0x10000 + ((uni - 0xD800) * 0x400 + (uni2 - 0xDC00)))
                                 (scanstring (drop 10 s1))
                          else cons_str uni (scanstring (drop 4 s1)))
                   else cons_str uni (scanstring (drop 4 s1))))
     else if c < 32 then Inl JSONDecodeError
     else cons_str c (scanstring s))"
  by pat_completeness auto
termination
  by (relation "measure length") auto

text \<open>
  The number at the head of the text, if there is one: an integer part, then a fraction
  and an exponent when they are complete. With neither the value is an \<open>int\<close>.
\<close>

definition digits_val :: "str \<Rightarrow> nat" where
  "digits_val ds = foldl (\<lambda>a d. a * 10 + (d - 48)) 0 ds"

definition match_frac :: "str \<Rightarrow> str" where
  "match_frac s =
    (case s of
       p # f # r \<Rightarrow> if p = 46 \<and> is_digit f then p # takeWhile is_digit (f # r) else []
     | _ \<Rightarrow> [])"

definition match_exp :: "str \<Rightarrow> str" where
  "match_exp s =
    (case s of
       [] \<Rightarrow> []
     | e # r \<Rightarrow>
         if e = 101 \<or> e = 69 then
           (let sgn = (case r of
                         [] \<Rightarrow> []
                       | c # _ \<Rightarrow> if c = 43 \<or> c = 45 then [c] else []);
                ds = takeWhile is_digit (drop (length sgn) r)
            in if ds = [] then [] else e # sgn @ ds)
         else [])"

definition number_tail :: "bool \<Rightarrow> str \<Rightarrow> str \<Rightarrow> json \<times> str" where
  "number_tail neg ds rest =
    (let frac = match_frac rest;
         rest1 = drop (length frac) rest;
         ex = match_exp rest1;
         rest2 = drop (length ex) rest1
     in if frac = [] \<and> ex = []
        then (JInt (if neg then - int (digits_val ds) else int (digits_val ds)), rest2)
        else (JFloat ((if neg then [45] else []) @ ds @ frac @ ex), rest2))"

definition match_number :: "str \<Rightarrow> (json \<times> str) option" where
  "match_number s =
    (let neg = (case s of [] \<Rightarrow> False | c # _ \<Rightarrow> c = 45);
         s1 = (if neg then tl s else s)
     in case s1 of
          [] \<Rightarrow> None
        | d # r \<Rightarrow>
            if d = 48 then Some (number_tail neg [48] r)
            else if 49 \<le> d \<and> d \<le> 57
            then Some (number_tail neg (d # takeWhile is_digit r) (dropWhile is_digit r))
            else None)"

text \<open>
  The scanner. Its first argument bounds the number of nested and repeated calls; it
  stands for the interpreter's recursion limit, and \<open>json_loads\<close> starts it high enough
  for the text it is given.
\<close>

fun scan_once :: "nat \<Rightarrow> str \<Rightarrow> error + (json \<times> str)"
  and parse_array :: "nat \<Rightarrow> str \<Rightarrow> error + (json list \<times> str)"
  and parse_object :: "nat \<Rightarrow> str \<Rightarrow> error + ((str \<times> json) list \<times> str)"
where
  "scan_once 0 s = Inl RecursionError"
| "scan_once (Suc n) [] = Inl JSONDecodeError"
| "scan_once (Suc n) (c # s) =
    (if c = 34 then
       (case scanstring s of
          Inl e \<Rightarrow> Inl e
        | Inr (v, rest) \<Rightarrow> Inr (JStr v, rest))
     else if c = 123 then
       (case skip_ws s of
          [] \<Rightarrow> Inl JSONDecodeError
        | c1 # r \<Rightarrow>
            if c1 = 125 then Inr (JObj [], r)
            else (case parse_object n (c1 # r) of
                    Inl e \<Rightarrow> Inl e
                  | Inr (pairs, rest) \<Rightarrow> Inr (JObj (dict pairs), rest)))
     else if c = 91 then
       (case skip_ws s of
          [] \<Rightarrow> Inl JSONDecodeError
        | c1 # r \<Rightarrow>
            if c1 = 93 then Inr (JArr [], r)
            else (case parse_array n (c1 # r) of
                    Inl e \<Rightarrow> Inl e
                  | Inr (vs, rest) \<Rightarrow> Inr (JArr vs, rest)))
     else if take 4 (c # s) = str_of ''null'' then Inr (JNull, drop 4 (c # s))
     else if take 4 (c # s) = str_of ''true'' then Inr (JBool True, drop 4 (c # s))
     else if take 5 (c # s) = str_of ''false'' then Inr (JBool False, drop 5 (c # s))
     else
       (case match_number (c # s) of
          Some r \<Rightarrow> Inr r
        | None \<Rightarrow>
            if take 3 (c # s) = str_of ''NaN''
            then Inr (JFloat (str_of ''NaN''), drop 3 (c # s))
            else if take 8 (c # s) = str_of ''Infinity''
            then Inr (JFloat (str_of ''Infinity''), drop 8 (c # s))
            else if take 9 (c # s) = str_of ''-Infinity''
            then Inr (JFloat (str_of ''-Infinity''), drop 9 (c # s))
            else Inl JSONDecodeError))"
| "parse_array 0 s = Inl RecursionError"
| "parse_array (Suc n) s =
    (case scan_once n s of
       Inl e \<Rightarrow> Inl e
     | Inr (v, rest) \<Rightarrow>
         (case skip_ws rest of
            [] \<Rightarrow> Inl JSONDecodeError
          | c # r \<Rightarrow>
              if c = 93 then Inr ([v], r)
              else if c = 44 then
                (case parse_array n (skip_ws r) of
                   Inl e \<Rightarrow> Inl e
                 | Inr (vs, rest') \<Rightarrow> Inr (v # vs, rest'))
              else Inl JSONDecodeError))"
| "parse_object 0 s = Inl RecursionError"
| "parse_object (Suc n) s =
    (case s of
       [] \<Rightarrow> Inl JSONDecodeError
     | q # s0 \<Rightarrow>
         if q \<noteq> 34 then Inl JSONDecodeError
         else
           (case scanstring s0 of
              Inl e \<Rightarrow> Inl e
            | Inr (key, rest) \<Rightarrow>
                (case skip_ws rest of
                   [] \<Rightarrow> Inl JSONDecodeError
                 | c # r \<Rightarrow>
                     if c \<noteq> 58 then Inl JSONDecodeError
                     else
                       (case scan_once n (skip_ws r) of
                          Inl e \<Rightarrow> Inl e
                        | Inr (v, rest1) \<Rightarrow>
                            (case skip_ws rest1 of
                               [] \<Rightarrow> Inl JSONDecodeError
                             | d # r1 \<Rightarrow>
                                 if d = 125 then Inr ([(key, v)], r1)
                                 else if d = 44 then
                                   (case parse_object n (skip_ws r1) of
                                      Inl e \<Rightarrow> Inl e
                                    | Inr (kvs, rest2) \<Rightarrow> Inr ((key, v) # kvs, rest2))
                                 else Inl JSONDecodeError)))))"

text \<open>\<open>json.loads\<close> of a \<open>str\<close>: no byte order mark, one value, nothing but white space
  around it.\<close>

definition json_loads :: "str \<Rightarrow> error + json" where
  "json_loads s =
    (if take 1 s = [0xFEFF] then Inl JSONDecodeError
     else
       (case scan_once (2 * length s + 1) (skip_ws s) of
          Inl e \<Rightarrow> Inl e
        | Inr (v, rest) \<Rightarrow> if skip_ws rest = [] then Inr v else Inl JSONDecodeError))"

section \<open>The wire codec (protocol.py)\<close>

definition UDP_PORT :: nat where "UDP_PORT = 5000"
definition TCP_PORT :: nat where "TCP_PORT = 5001"
definition BUFFER_SIZE :: nat where "BUFFER_SIZE = 4096"
definition DISCOVERY_INTERVAL :: real where "DISCOVERY_INTERVAL = 2.0"

datatype MessageType =
    DISCOVERY
  | TEXT
  | FILE_OFFER
  | FILE_ACCEPT
  | FILE_REJECT
  | FILE_DATA
  | FILE_END

text \<open>The \<open>value\<close> of a member, and the call \<open>MessageType(v)\<close> that looks a member up
  by its value and raises \<open>ValueError\<close> when there is none.\<close>

fun MessageType_value :: "MessageType \<Rightarrow> str" where
  "MessageType_value DISCOVERY = str_of ''DISCOVERY''"
| "MessageType_value TEXT = str_of ''TEXT''"
| "MessageType_value FILE_OFFER = str_of ''FILE_OFFER''"
| "MessageType_value FILE_ACCEPT = str_of ''FILE_ACCEPT''"
| "MessageType_value FILE_REJECT = str_of ''FILE_REJECT''"
| "MessageType_value FILE_DATA = str_of ''FILE_DATA''"
| "MessageType_value FILE_END = str_of ''FILE_END''"

definition MessageType_members :: "MessageType list" where
  "MessageType_members =
    [DISCOVERY, TEXT, FILE_OFFER, FILE_ACCEPT, FILE_REJECT, FILE_DATA, FILE_END]"

definition MessageType_call :: "json \<Rightarrow> error + MessageType" where
  "MessageType_call v =
    (case v of
       JStr s \<Rightarrow>
         (case find (\<lambda>t. MessageType_value t = s) MessageType_members of
            Some t \<Rightarrow> Inr t
          | None \<Rightarrow> Inl ValueError)
     | _ \<Rightarrow> Inl ValueError)"

text \<open>
  The dataclass. Its annotations are not checked when an instance is made, so every field
  but \<open>type\<close> holds whatever value it was given.
\<close>

record Message =
  type :: MessageType
  sender_name :: json
  sender_ip :: json
  payload :: json

text \<open>
  \<open>Message(**data)\<close> once \<open>data['type']\<close> is a member \<open>t\<close>, \<open>kwargs\<close> being the
  other items of \<open>data\<close>: a keyword that is not a field and a missing field without a
  default raise \<open>TypeError\<close>; \<open>payload\<close> defaults to \<open>None\<close>.
\<close>

definition Message_init :: "MessageType \<Rightarrow> (str \<times> json) list \<Rightarrow> error + Message" where
  "Message_init t kwargs =
    (if \<not> list_all
            (\<lambda>k. k = str_of ''sender_name'' \<or> k = str_of ''sender_ip''
                 \<or> k = str_of ''payload'')
            (map fst kwargs)
     then Inl TypeError
     else
       (case (map_of kwargs (str_of ''sender_name''), map_of kwargs (str_of ''sender_ip'')) of
          (Some n, Some i) \<Rightarrow>
            Inr \<lparr>type = t, sender_name = n, sender_ip = i,
                 payload = (case map_of kwargs (str_of ''payload'') of
                              None \<Rightarrow> JNull
                            | Some p \<Rightarrow> p)\<rparr>
        | _ \<Rightarrow> Inl TypeError))"

definition to_json :: "Message \<Rightarrow> str" where
  "to_json m =
    json_dumps
      (JObj [(str_of ''type'', JStr (MessageType_value (type m))),
             (str_of ''sender_name'', sender_name m),
             (str_of ''sender_ip'', sender_ip m),
             (str_of ''payload'', payload m)])"

definition from_json :: "str \<Rightarrow> error + Message" where
  "from_json json_str =
    (case json_loads json_str of
       Inl e \<Rightarrow> Inl e
     | Inr data \<Rightarrow>
         (case data of
            JObj d \<Rightarrow>
              (case map_of d (str_of ''type'') of
                 None \<Rightarrow> Inl KeyError
               | Some v \<Rightarrow>
                   (case MessageType_call v of
                      Inl e \<Rightarrow> Inl e
                    | Inr t \<Rightarrow> Message_init t (AList.delete (str_of ''type'') d)))
          | _ \<Rightarrow> Inl TypeError))"

definition to_bytes :: "Message \<Rightarrow> error + bytes" where
  "to_bytes m = utf8_encode (to_json m)"

definition from_bytes :: "bytes \<Rightarrow> error + Message" where
  "from_bytes data =
    (case utf8_decode data of
       Inl e \<Rightarrow> Inl e
     | Inr json_str \<Rightarrow> from_json json_str)"

text \<open>\<open>decode(encode(E))\<close>: the bytes of an envelope, read back.\<close>

definition decode_encode :: "Message \<Rightarrow> error + Message" where
  "decode_encode m =
    (case to_bytes m of
       Inl e \<Rightarrow> Inl e
     | Inr data \<Rightarrow> from_bytes data)"

subsection \<open>Well-formed envelopes\<close>

text \<open>
  A Unicode scalar value is a code point that is not a surrogate. The values the round
  trip is stated for: strings of scalar values, and in a payload \<open>None\<close>, booleans,
  integers, such strings, lists, and dictionaries with such strings as keys, each key
  once.
\<close>

definition scalar :: "nat \<Rightarrow> bool" where
  "scalar c \<longleftrightarrow> c < 0x110000 \<and> \<not> (0xD800 \<le> c \<and> c \<le> 0xDFFF)"

definition wf_str :: "str \<Rightarrow> bool" where
  "wf_str s = list_all scalar s"

fun wf_json :: "json \<Rightarrow> bool" where
  "wf_json JNull = True"
| "wf_json (JBool b) = True"
| "wf_json (JInt i) = True"
| "wf_json (JFloat lit) = False"
| "wf_json (JStr s) = wf_str s"
| "wf_json (JArr vs) = (\<forall>v \<in> set vs. wf_json v)"
| "wf_json (JObj kvs) =
    (distinct (map fst kvs) \<and> (\<forall>kv \<in> set kvs. wf_str (fst kv) \<and> wf_json (snd kv)))"

text \<open>
  An envelope as its senders build it: the name and the address are strings, the payload
  is a dictionary or \<open>None\<close>.
\<close>

definition valid_envelope :: "Message \<Rightarrow> bool" where
  "valid_envelope m \<longleftrightarrow>
    (case sender_name m of JStr n \<Rightarrow> wf_str n | _ \<Rightarrow> False)
    \<and> (case sender_ip m of JStr i \<Rightarrow> wf_str i | _ \<Rightarrow> False)
    \<and> (case payload m of JObj d \<Rightarrow> wf_json (JObj d) | JNull \<Rightarrow> True | _ \<Rightarrow> False)"

text \<open>The dictionary \<open>to_json\<close> serialises, and what \<open>from_json\<close> does with the
  value \<open>json.loads\<close> returned.\<close>

definition envelope_json :: "Message \<Rightarrow> json" where
  "envelope_json m =
    JObj [(str_of ''type'', JStr (MessageType_value (type m))),
          (str_of ''sender_name'', sender_name m),
          (str_of ''sender_ip'', sender_ip m),
          (str_of ''payload'', payload m)]"

definition from_data :: "json \<Rightarrow> error + Message" where
  "from_data data =
    (case data of
       JObj d \<Rightarrow>
         (case map_of d (str_of ''type'') of
            None \<Rightarrow> Inl KeyError
          | Some v \<Rightarrow>
              (case MessageType_call v of
                 Inl e \<Rightarrow> Inl e
               | Inr t \<Rightarrow> Message_init t (AList.delete (str_of ''type'') d)))
     | _ \<Rightarrow> Inl TypeError)"

subsection \<open>Notions used in the proofs about the scanner\<close>

text \<open>
  What can follow a value in the encoder's output (a comma, a closing bracket or
  brace, or the end), the characters a value can start with, and the text of one item
  of a dictionary.
\<close>

definition delim :: "str \<Rightarrow> bool" where
  "delim rest = (case rest of [] \<Rightarrow> True | c # _ \<Rightarrow> c = 44 \<or> c = 93 \<or> c = 125)"

definition value_start :: "nat \<Rightarrow> bool" where
  "value_start c \<longleftrightarrow> c = 34 \<or> c = 45 \<or> c = 91 \<or> c = 102 \<or> c = 110 \<or> c = 116 \<or> c = 123 \<or> is_digit c"

definition member :: "str \<times> json \<Rightarrow> str" where
  "member kv = encode_basestring_ascii (fst kv) @ str_of '': '' @ json_dumps (snd kv)"

section \<open>The transport (network.py)\<close>

text \<open>
  A connected socket, seen from the reader: the chunks the transport will still deliver,
  in order, and then the peer's close. \<open>recv n\<close> returns at most \<open>n\<close> bytes of the next
  chunk, and \<open>b''\<close> once the peer has closed. Errors of the transport itself are not
  modelled.
\<close>

type_synonym sock = "bytes list"

fun recv :: "nat \<Rightarrow> sock \<Rightarrow> bytes \<times> sock" where
  "recv n [] = ([], [])"
| "recv n (c # cs) =
    (if c = [] then recv n cs
     else if length c \<le> n then (c, cs)
     else (take n c, drop n c # cs))"

text \<open>\<open>int.from_bytes(b, byteorder='big')\<close> and \<open>n.to_bytes(4, byteorder='big')\<close>.\<close>

definition int_from_bytes :: "bytes \<Rightarrow> nat" where
  "int_from_bytes b = foldl (\<lambda>a c. a * 256 + of_char c) 0 b"

definition int_to_bytes4 :: "nat \<Rightarrow> error + bytes" where
  "int_to_bytes4 n =
    (if n < 2 ^ 32
     then Inr [char_of (n div 2 ^ 24), char_of (n div 2 ^ 16), char_of (n div 2 ^ 8), char_of n]
     else Inl OverflowError)"

text \<open>The inner loop of \<open>_handle_client\<close>: the body of a message, read until it is
  complete or the peer closes.\<close>

function read_body :: "nat \<Rightarrow> bytes \<Rightarrow> sock \<Rightarrow> bytes \<times> sock" where
  "read_body msg_len data s =
    (if length data < msg_len then
       (case recv (min (msg_len - length data) BUFFER_SIZE) s of
          (chunk, s') \<Rightarrow>
            if chunk = [] then (data, s')
            else read_body msg_len (data @ chunk) s')
     else (data, s))"
  by pat_completeness auto
termination
proof (relation "measure (\<lambda>(msg_len, data, s). msg_len - length data)", goal_cases)
  case 1
  show ?case by simp
next
  case (2 msg_len data s chunk s1)
  from 2(3) have "0 < length chunk" by simp
  with 2(1) have "msg_len - (length data + length chunk) < msg_len - length data"
    by linarith
  then show ?case by simp
qed

declare read_body.simps [simp del]

text \<open>
  \<open>_handle_file_data\<close> reads two items of the payload, re-encodes one and stores
  nothing. It raises when the payload is not a dictionary, when \<open>data\<close> is missing or not
  a string, and when the string does not fit Latin-1.
\<close>

definition handle_file_data :: "Message \<Rightarrow> error + unit" where
  "handle_file_data msg =
    (case payload msg of
       JObj d \<Rightarrow>
         (case map_of d (str_of ''data'') of
            Some (JStr s) \<Rightarrow> if list_all (\<lambda>c. c < 256) s then Inr () else Inl UnicodeEncodeError
          | _ \<Rightarrow> Inl AttributeError)
     | _ \<Rightarrow> Inl AttributeError)"

text \<open>
  What a run of \<open>_handle_client\<close> does, in order: calls of the consumer's \<open>on_message\<close>,
  errors it logs, and the close of the socket. The consumer's callback is taken not to
  raise.
\<close>

datatype net_event =
    OnMessage Message
  | LogError error
  | SockClose

lemma recv_shorter:
  "recv n s = (chunk, s') \<Longrightarrow> chunk \<noteq> [] \<Longrightarrow> length (concat s') < length (concat s)"
  by (induction s) (auto split: if_splits)

lemma read_body_shorter:
  "read_body msg_len data s = (data', s') \<Longrightarrow> length (concat s') \<le> length (concat s)"
proof (induction msg_len data s rule: read_body.induct)
  case (1 msg_len data s)
  note unfold = read_body.simps [of msg_len data s]
  show ?case
  proof (cases "length data < msg_len")
    case False
    with "1.prems" show ?thesis by (simp add: unfold)
  next
    case True
    obtain chunk s1 where r: "recv (min (msg_len - length data) BUFFER_SIZE) s = (chunk, s1)"
      by (cases "recv (min (msg_len - length data) BUFFER_SIZE) s")
    show ?thesis
    proof (cases "chunk = []")
      case True
      have "length (concat s1) \<le> length (concat s)"
        using r by (induction s) (auto split: if_splits)
      with \<open>length data < msg_len\<close> r True "1.prems" show ?thesis by (simp add: unfold)
    next
      case False
      from recv_shorter [OF r False] have "length (concat s1) < length (concat s)" .
      moreover have "read_body msg_len (data @ chunk) s1 = (data', s')"
        using \<open>length data < msg_len\<close> r False "1.prems" by (simp add: unfold)
      ultimately show ?thesis
        using "1.IH" [OF \<open>length data < msg_len\<close> r [symmetric] False] by simp
    qed
  qed
qed

text \<open>
  \<open>_handle_client\<close> for the peer address \<open>ip\<close>, while the service is running
  (\<open>running\<close> is the flag the loop tests, the same at every test).
\<close>

function handle_client :: "bool \<Rightarrow> str \<Rightarrow> sock \<Rightarrow> net_event list" where
  "handle_client running ip s =
    (if \<not> running then [SockClose]
     else
       (case recv 4 s of
          (length_bytes, s1) \<Rightarrow>
            if length_bytes = [] then [SockClose]
            else
              (case read_body (int_from_bytes length_bytes) [] s1 of
                 (data, s2) \<Rightarrow>
                   if length data \<noteq> int_from_bytes length_bytes then [SockClose]
                   else
                     (case from_bytes data of
                        Inl e \<Rightarrow> [LogError e, SockClose]
                      | Inr msg0 \<Rightarrow>
                          (let msg = msg0\<lparr>sender_ip := JStr ip\<rparr> in
                           if type msg = FILE_DATA then
                             (case handle_file_data msg of
                                Inl e \<Rightarrow> [LogError e, SockClose]
                              | Inr _ \<Rightarrow> handle_client running ip s2)
                           else OnMessage msg # handle_client running ip s2)))))"
  by pat_completeness auto
termination
proof (relation "measure (\<lambda>(running, ip, s). length (concat s))", goal_cases)
  case 1
  show ?case by simp
next
  case prems: 2
  then show ?case
    using recv_shorter read_body_shorter
    by (metis (no_types, lifting) in_measure le_less_trans old.prod.case)
next
  case prems: 3
  then show ?case
    using recv_shorter read_body_shorter
    by (metis (no_types, lifting) in_measure le_less_trans old.prod.case)
qed

declare handle_client.simps [simp del]

text \<open>
  One pass of the loop of \<open>_handle_client\<close> up to the decoder: on the socket \<open>s\<close> the
  two reads hand the body \<open>data\<close> to \<open>Message.from_bytes\<close> and leave the socket
  \<open>s2\<close>.
\<close>

definition reads_frame :: "sock \<Rightarrow> bytes \<Rightarrow> sock \<Rightarrow> bool" where
  "reads_frame s data s2 \<longleftrightarrow>
    (case recv 4 s of
       (length_bytes, s1) \<Rightarrow>
         length_bytes \<noteq> []
         \<and> read_body (int_from_bytes length_bytes) [] s1 = (data, s2)
         \<and> length data = int_from_bytes length_bytes)"

text \<open>\<open>_send_to_peer\<close> writes one frame: the length of the encoded message on four bytes,
  then the message. \<open>send_message\<close> builds the message it sends.\<close>

definition frame :: "Message \<Rightarrow> error + bytes" where
  "frame msg =
    (case to_bytes msg of
       Inl e \<Rightarrow> Inl e
     | Inr data \<Rightarrow>
         (case int_to_bytes4 (length data) of
            Inl e \<Rightarrow> Inl e
          | Inr length_bytes \<Rightarrow> Inr (length_bytes @ data)))"

definition text_message :: "str \<Rightarrow> str \<Rightarrow> Message" where
  "text_message username message =
    \<lparr>type = TEXT, sender_name = JStr username, sender_ip = JStr [],
     payload = JObj [(str_of ''text'', JStr message)]\<rparr>"

section \<open>Peer discovery (discovery.py)\<close>

text \<open>
  The two tables of \<open>PeerDiscovery\<close>, each a dictionary in insertion order, and the calls
  of the consumer's callbacks. Timestamps are real numbers.
\<close>

record discovery =
  peers :: "(str \<times> real) list"
  peer_names :: "(str \<times> json) list"

datatype peer_event =
    PeerDiscovered str json
  | PeerLost str

text \<open>\<open>_handle_discovery\<close> at time \<open>current_time\<close>.\<close>

definition handle_discovery ::
  "real \<Rightarrow> str \<Rightarrow> json \<Rightarrow> discovery \<Rightarrow> discovery \<times> peer_event list" where
  "handle_discovery current_time ip name st =
    (let is_new = (map_of (peers st) ip = None);
         st' = st\<lparr>peers := AList.update ip current_time (peers st),
                  peer_names := AList.update ip name (peer_names st)\<rparr>
     in (st', if is_new then [PeerDiscovered ip name] else []))"

text \<open>
  One pass of \<open>_cleanup_loop\<close> at time \<open>current_time\<close>: the stale addresses are
  collected in table order, then each is deleted from both tables and reported lost.
  \<open>del d[k]\<close> raises \<open>KeyError\<close> when \<open>k\<close> is not a key.
\<close>

definition py_del :: "str \<Rightarrow> (str \<times> 'v) list \<Rightarrow> error + (str \<times> 'v) list" where
  "py_del k d = (if map_of d k = None then Inl KeyError else Inr (AList.delete k d))"

definition to_remove :: "real \<Rightarrow> discovery \<Rightarrow> str list" where
  "to_remove current_time st =
    map fst (filter (\<lambda>(ip, last_seen). current_time - last_seen > DISCOVERY_INTERVAL * 3)
               (peers st))"

definition remove_peer :: "str \<Rightarrow> discovery \<Rightarrow> error + discovery \<times> peer_event list" where
  "remove_peer ip st =
    (case py_del ip (peers st) of
       Inl e \<Rightarrow> Inl e
     | Inr ps \<Rightarrow>
         Inr (st\<lparr>peers := ps,
                 peer_names := (if map_of (peer_names st) ip \<noteq> None
                                then AList.delete ip (peer_names st)
                                else peer_names st)\<rparr>,
              [PeerLost ip]))"

fun remove_all :: "str list \<Rightarrow> discovery \<Rightarrow> error + discovery \<times> peer_event list" where
  "remove_all [] st = Inr (st, [])"
| "remove_all (ip # ips) st =
    (case remove_peer ip st of
       Inl e \<Rightarrow> Inl e
     | Inr (st1, evs1) \<Rightarrow>
         (case remove_all ips st1 of
            Inl e \<Rightarrow> Inl e
          | Inr (st2, evs2) \<Rightarrow> Inr (st2, evs1 @ evs2)))"

definition cleanup :: "real \<Rightarrow> discovery \<Rightarrow> error + discovery \<times> peer_event list" where
  "cleanup current_time st = remove_all (to_remove current_time st) st"

text \<open>
  The calls that reach the tables, one after the other: \<open>Heartbeat t ip name\<close> is the
  listen loop calling \<open>_handle_discovery(ip, name)\<close> at time \<open>t\<close>, \<open>Cleanup t\<close> a pass
  of the cleanup loop at time \<open>t\<close>. \<open>run\<close> gives the final tables and the callbacks in
  the order they were made.
\<close>

datatype op = Heartbeat real str json | Cleanup real

fun run :: "op list \<Rightarrow> discovery \<Rightarrow> error + discovery \<times> peer_event list" where
  "run [] st = Inr (st, [])"
| "run (Heartbeat t ip name # ops) st =
    (case handle_discovery t ip name st of
       (st1, evs1) \<Rightarrow>
         (case run ops st1 of
            Inl e \<Rightarrow> Inl e
          | Inr (st2, evs2) \<Rightarrow> Inr (st2, evs1 @ evs2)))"
| "run (Cleanup t # ops) st =
    (case cleanup t st of
       Inl e \<Rightarrow> Inl e
     | Inr (st1, evs1) \<Rightarrow>
         (case run ops st1 of
            Inl e \<Rightarrow> Inl e
          | Inr (st2, evs2) \<Rightarrow> Inr (st2, evs1 @ evs2)))"

text \<open>The address an event is about.\<close>

fun peer_of :: "peer_event \<Rightarrow> str" where
  "peer_of (PeerDiscovered ip name) = ip"
| "peer_of (PeerLost ip) = ip"

text \<open>
  The life of one peer as the specification tells it, from the calls alone: \<open>last_seen\<close>
  is \<open>None\<close> while the peer is unknown. Its first heartbeat is reported as a discovery,
  later ones are not; a cleanup pass that finds it silent for more than three times the
  2.0 s interval reports it lost and forgets it.
\<close>

fun lifecycle :: "str \<Rightarrow> op list \<Rightarrow> real option \<Rightarrow> peer_event list" where
  "lifecycle ip [] last_seen = []"
| "lifecycle ip (Heartbeat t ip' name # ops) last_seen =
    (if ip' = ip
     then (case last_seen of None \<Rightarrow> [PeerDiscovered ip name] | Some _ \<Rightarrow> [])
          @ lifecycle ip ops (Some t)
     else lifecycle ip ops last_seen)"
| "lifecycle ip (Cleanup t # ops) last_seen =
    (case last_seen of
       None \<Rightarrow> lifecycle ip ops None
     | Some l \<Rightarrow>
         if t - l > 3 * 2.0 then PeerLost ip # lifecycle ip ops None
         else lifecycle ip ops (Some l))"

text \<open>Discoveries and losses alternate; \<open>present\<close> tells whether an episode is open.\<close>

fun episodes :: "bool \<Rightarrow> peer_event list \<Rightarrow> bool" where
  "episodes present [] = True"
| "episodes present (PeerDiscovered ip name # evs) = (\<not> present \<and> episodes True evs)"
| "episodes present (PeerLost ip # evs) = (present \<and> episodes False evs)"

text \<open>The two tables have the same keys; a dictionary has each key once.\<close>

definition same_keys :: "discovery \<Rightarrow> bool" where
  "same_keys st \<longleftrightarrow> set (map fst (peers st)) = set (map fst (peer_names st))"

definition wf_tables :: "discovery \<Rightarrow> bool" where
  "wf_tables st \<longleftrightarrow> distinct (map fst (peers st)) \<and> distinct (map fst (peer_names st))"

section \<open>Notions of the claims and example inputs\<close>

text \<open>
  A parsed structure lacks a field that \<open>Message\<close> has no default for, or is no
  dictionary at all; a value is one of the seven names of \<open>MessageType\<close>.
\<close>

definition lacks_required :: "json \<Rightarrow> bool" where
  "lacks_required v =
    (case v of
       JObj d \<Rightarrow>
         map_of d (str_of ''type'') = None \<or> map_of d (str_of ''sender_name'') = None
         \<or> map_of d (str_of ''sender_ip'') = None
     | _ \<Rightarrow> True)"

definition recognized :: "json \<Rightarrow> bool" where
  "recognized v \<longleftrightarrow>
    v \<in> set (map (\<lambda>n. JStr (str_of n))
               [''DISCOVERY'', ''TEXT'', ''FILE_OFFER'', ''FILE_ACCEPT'', ''FILE_REJECT'',
                ''FILE_DATA'', ''FILE_END''])"

text \<open>Bodies of frames, as \<open>to_bytes\<close> writes them or as a peer may send them.\<close>

definition hi_body :: bytes where
  \<open>hi_body = ''{"type": "TEXT", "sender_name": "alice", "sender_ip": "", "payload": {"text": "hi"}}''\<close>

definition bye_body :: bytes where
  \<open>bye_body = ''{"type": "TEXT", "sender_name": "alice", "sender_ip": "", "payload": {"text": "bye"}}''\<close>

definition spoofed_body :: bytes where
  \<open>spoofed_body = ''{"type": "TEXT", "sender_name": "alice", "sender_ip": "6.6.6.6", "payload": {"text": "hi"}}''\<close>


definition no_payload_body :: bytes where
  \<open>no_payload_body = ''{"type": "TEXT", "sender_name": "a", "sender_ip": "b"}''\<close>

definition no_sender_ip_body :: bytes where
  \<open>no_sender_ip_body = ''{"type": "TEXT", "sender_name": "a"}''\<close>

definition bad_type_body :: bytes where
  \<open>bad_type_body = ''{"type": "TXT", "sender_name": "a", "sender_ip": "b"}''\<close>

definition extra_key_body :: bytes where
  \<open>extra_key_body = ''{"type": "TEXT", "sender_name": "a", "sender_ip": "b", "payload": {}, "extra": 1}''\<close>

section \<open>Properties of peer discovery\<close>

lemma map_of_None_iff: "map_of d k = None \<longleftrightarrow> k \<notin> fst ` set d"
  by (simp add: map_of_eq_None_iff)

lemma keys_delete: "fst ` set (AList.delete k d) = fst ` set d - {k}"
  by (induction d) auto

lemma keys_filter: "fst ` set (filter (\<lambda>(k, v). k \<notin> A) d) = fst ` set d - A"
  by (induction d) auto

lemma remove_peer_Inr:
  assumes "ip \<in> fst ` set (peers st)"
  shows "remove_peer ip st =
    Inr (st\<lparr>peers := AList.delete ip (peers st),
            peer_names := AList.delete ip (peer_names st)\<rparr>, [PeerLost ip])"
  using assms by (auto simp: remove_peer_def py_del_def map_of_None_iff)

lemma remove_all_Inr:
  "distinct ips \<Longrightarrow> set ips \<subseteq> fst ` set (peers st) \<Longrightarrow>
   remove_all ips st =
     Inr (st\<lparr>peers := filter (\<lambda>(k, v). k \<notin> set ips) (peers st),
             peer_names := filter (\<lambda>(k, v). k \<notin> set ips) (peer_names st)\<rparr>,
          map PeerLost ips)"
proof (induction ips arbitrary: st)
  case Nil
  then show ?case by simp
next
  case (Cons ip ips)
  let ?st1 = "st\<lparr>peers := AList.delete ip (peers st),
                  peer_names := AList.delete ip (peer_names st)\<rparr>"
  from Cons.prems have r: "remove_peer ip st = Inr (?st1, [PeerLost ip])"
    by (simp add: remove_peer_Inr)
  have sub: "set ips \<subseteq> fst ` set (peers ?st1)"
    using Cons.prems by (auto simp: AList.delete_eq image_iff) force
  have "remove_all ips ?st1 =
     Inr (?st1\<lparr>peers := filter (\<lambda>(k, v). k \<notin> set ips) (peers ?st1),
             peer_names := filter (\<lambda>(k, v). k \<notin> set ips) (peer_names ?st1)\<rparr>,
          map PeerLost ips)"
    using Cons.IH [OF _ sub] Cons.prems by simp
  then show ?case
    using r by (simp add: AList.delete_eq case_prod_unfold eq_commute [of ip])
qed

lemma cleanup_Inr:
  assumes "distinct (map fst (peers st))"
  shows "cleanup t st =
     Inr (st\<lparr>peers := filter (\<lambda>(k, v). k \<notin> set (to_remove t st)) (peers st),
             peer_names := filter (\<lambda>(k, v). k \<notin> set (to_remove t st)) (peer_names st)\<rparr>,
          map PeerLost (to_remove t st))"
proof -
  have "distinct (to_remove t st)"
    using assms by (simp add: to_remove_def distinct_map_filter)
  moreover have "set (to_remove t st) \<subseteq> fst ` set (peers st)"
    by (auto simp: to_remove_def)
  ultimately show ?thesis
    unfolding cleanup_def by (rule remove_all_Inr)
qed

lemma filter_peer_of_lost:
  "distinct ips \<Longrightarrow>
   filter (\<lambda>e. peer_of e = ip) (map PeerLost ips) = (if ip \<in> set ips then [PeerLost ip] else [])"
  by (induction ips) auto

lemma map_of_filter_keys:
  "map_of (filter (\<lambda>(k, v). k \<notin> A) d) k = (if k \<in> A then None else map_of d k)"
  by (induction d) auto

lemma in_to_remove:
  assumes "distinct (map fst (peers st))"
  shows "ip \<in> set (to_remove t st) \<longleftrightarrow>
    (\<exists>l. map_of (peers st) ip = Some l \<and> t - l > DISCOVERY_INTERVAL * 3)"
  using assms by (auto simp: to_remove_def image_iff)

lemma handle_discovery_wf:
  "distinct (map fst (peers st)) \<Longrightarrow>
   distinct (map fst (peers (fst (handle_discovery t ip name st))))"
  by (simp add: handle_discovery_def Let_def distinct_update)

lemma run_lifecycle:
  "distinct (map fst (peers st)) \<Longrightarrow>
   \<exists>st' evs. run ops st = Inr (st', evs)
     \<and> filter (\<lambda>e. peer_of e = ip) evs = lifecycle ip ops (map_of (peers st) ip)"
proof (induction ops arbitrary: st)
  case Nil
  then show ?case by simp
next
  case (Cons a ops)
  show ?case
  proof (cases a)
    case (Heartbeat t ip' name)
    let ?st1 = "fst (handle_discovery t ip' name st)"
    have wf1: "distinct (map fst (peers ?st1))"
      using Cons.prems by (rule handle_discovery_wf)
    from Cons.IH [OF wf1] obtain st' evs where
      r: "run ops ?st1 = Inr (st', evs)"
      and f: "filter (\<lambda>e. peer_of e = ip) evs = lifecycle ip ops (map_of (peers ?st1) ip)"
      by blast
    have m: "map_of (peers ?st1) ip = (if ip' = ip then Some t else map_of (peers st) ip)"
      by (simp add: handle_discovery_def Let_def update_conv')
    show ?thesis
      using r f m Heartbeat
      by (cases "map_of (peers st) ip") (auto simp: handle_discovery_def Let_def)
  next
    case (Cleanup t)
    let ?st1 = "st\<lparr>peers := filter (\<lambda>(k, v). k \<notin> set (to_remove t st)) (peers st),
             peer_names := filter (\<lambda>(k, v). k \<notin> set (to_remove t st)) (peer_names st)\<rparr>"
    have c: "cleanup t st = Inr (?st1, map PeerLost (to_remove t st))"
      using Cons.prems by (rule cleanup_Inr)
    have wf1: "distinct (map fst (peers ?st1))"
      using Cons.prems by (simp add: distinct_map_filter)
    from Cons.IH [OF wf1] obtain st' evs where
      r: "run ops ?st1 = Inr (st', evs)"
      and f: "filter (\<lambda>e. peer_of e = ip) evs = lifecycle ip ops (map_of (peers ?st1) ip)"
      by blast
    have d: "distinct (to_remove t st)"
      using Cons.prems by (simp add: to_remove_def distinct_map_filter)
    have m: "map_of (peers ?st1) ip = (if ip \<in> set (to_remove t st) then None else map_of (peers st) ip)"
      by (simp add: map_of_filter_keys)
    show ?thesis
      using r f m c Cleanup in_to_remove [OF Cons.prems, of ip t] filter_peer_of_lost [OF d, of ip]
      by (cases "map_of (peers st) ip") (auto simp: DISCOVERY_INTERVAL_def)
  qed
qed

lemma lifecycle_episodes: "episodes (last_seen \<noteq> None) (lifecycle ip ops last_seen)"
  by (induction ip ops last_seen rule: lifecycle.induct) (auto split: option.splits)

text \<open>
  Claim C3. Whatever calls reach the tables, and for every address, the callbacks about
  that address are those of the peer's life: a discovery at its first heartbeat and none
  at the following ones, one loss at the cleanup pass that finds it silent for more than
  3 times 2.0 s, a discovery again at the next heartbeat. So discoveries and losses of
  one address alternate, each episode opened by one discovery and closed by one loss. No
  pass raises.
\<close>

theorem discovery_lifecycle:
  assumes "distinct (map fst (peers st))"
  shows "\<exists>st' evs. run ops st = Inr (st', evs)
    \<and> filter (\<lambda>e. peer_of e = ip) evs = lifecycle ip ops (map_of (peers st) ip)
    \<and> episodes (map_of (peers st) ip \<noteq> None) (filter (\<lambda>e. peer_of e = ip) evs)"
proof -
  from run_lifecycle [OF assms] obtain st' evs where
    "run ops st = Inr (st', evs)"
    "filter (\<lambda>e. peer_of e = ip) evs = lifecycle ip ops (map_of (peers st) ip)"
    by blast
  then show ?thesis
    using lifecycle_episodes [of "map_of (peers st) ip" ip ops] by simp
qed

theorem discovery_lifecycle_witness:
  "distinct (map fst (peers \<lparr>peers = [], peer_names = []\<rparr>))
   \<and> (\<exists>st' evs.
        run [Heartbeat 0 (str_of ''10.0.0.5'') (JStr (str_of ''alice'')),
             Heartbeat 2 (str_of ''10.0.0.5'') (JStr (str_of ''alice'')),
             Heartbeat 4 (str_of ''10.0.0.5'') (JStr (str_of ''alice'')),
             Cleanup 5, Cleanup 10, Cleanup 15,
             Heartbeat 16 (str_of ''10.0.0.5'') (JStr (str_of ''alice''))]
          \<lparr>peers = [], peer_names = []\<rparr> = Inr (st', evs)
        \<and> filter (\<lambda>e. peer_of e = str_of ''10.0.0.5'') evs =
            [PeerDiscovered (str_of ''10.0.0.5'') (JStr (str_of ''alice'')),
             PeerLost (str_of ''10.0.0.5''),
             PeerDiscovered (str_of ''10.0.0.5'') (JStr (str_of ''alice''))])"
  using discovery_lifecycle [of "\<lparr>peers = [], peer_names = []\<rparr>"
      "[Heartbeat 0 (str_of ''10.0.0.5'') (JStr (str_of ''alice'')),
        Heartbeat 2 (str_of ''10.0.0.5'') (JStr (str_of ''alice'')),
        Heartbeat 4 (str_of ''10.0.0.5'') (JStr (str_of ''alice'')),
        Cleanup 5, Cleanup 10, Cleanup 15,
        Heartbeat 16 (str_of ''10.0.0.5'') (JStr (str_of ''alice''))]"
      "str_of ''10.0.0.5''"]
  by (auto simp del: run.simps)

text \<open>
  Claim C8, as amended. A heartbeat from an address that is already in the table makes no
  callback, keeps the keys of the table and their order, sets the time the address was
  last seen, and overwrites its stored name with the name of the heartbeat. The entries
  of every other address are unchanged in both tables.
\<close>

theorem heartbeat_known_peer:
  assumes "map_of (peers st) ip = Some l"
    and "handle_discovery t ip name st = (st', evs)"
  shows "evs = []
    \<and> map fst (peers st') = map fst (peers st)
    \<and> map_of (peers st') ip = Some t
    \<and> map_of (peer_names st') ip = Some name
    \<and> (\<forall>ip'. ip' \<noteq> ip \<longrightarrow>
          map_of (peers st') ip' = map_of (peers st) ip'
          \<and> map_of (peer_names st') ip' = map_of (peer_names st) ip')"
proof -
  from assms(1) have "ip \<in> fst ` set (peers st)"
    by (metis map_of_None_iff option.distinct(1))
  then have "map fst (AList.update ip t (peers st)) = map fst (peers st)"
    by (simp add: update_keys)
  then show ?thesis
    using assms by (auto simp: handle_discovery_def Let_def update_conv')
qed

theorem heartbeat_known_peer_witness:
  "map_of (peers \<lparr>peers = [(str_of ''10.0.0.5'', 0)],
                  peer_names = [(str_of ''10.0.0.5'', JStr (str_of ''alice''))]\<rparr>)
     (str_of ''10.0.0.5'') = Some 0
   \<and> handle_discovery 2 (str_of ''10.0.0.5'') (JStr (str_of ''bob''))
       \<lparr>peers = [(str_of ''10.0.0.5'', 0)],
        peer_names = [(str_of ''10.0.0.5'', JStr (str_of ''alice''))]\<rparr>
     = (\<lparr>peers = [(str_of ''10.0.0.5'', 2)],
         peer_names = [(str_of ''10.0.0.5'', JStr (str_of ''bob''))]\<rparr>, [])
   \<and> map_of (peer_names \<lparr>peers = [(str_of ''10.0.0.5'', 2)],
         peer_names = [(str_of ''10.0.0.5'', JStr (str_of ''bob''))]\<rparr>) (str_of ''10.0.0.5'')
     = Some (JStr (str_of ''bob''))"
proof -
  have k: "map_of (peers \<lparr>peers = [(str_of ''10.0.0.5'', 0)],
                  peer_names = [(str_of ''10.0.0.5'', JStr (str_of ''alice''))]\<rparr>)
     (str_of ''10.0.0.5'') = Some 0"
    by simp
  have h: "handle_discovery 2 (str_of ''10.0.0.5'') (JStr (str_of ''bob''))
       \<lparr>peers = [(str_of ''10.0.0.5'', 0)],
        peer_names = [(str_of ''10.0.0.5'', JStr (str_of ''alice''))]\<rparr>
     = (\<lparr>peers = [(str_of ''10.0.0.5'', 2)],
         peer_names = [(str_of ''10.0.0.5'', JStr (str_of ''bob''))]\<rparr>, [])"
    by (simp add: handle_discovery_def)
  from heartbeat_known_peer [OF k h] k h show ?thesis by simp
qed

text \<open>
  Claim C8 as stated fails: a known peer that announces itself as \<open>bob\<close> is no longer
  stored as \<open>alice\<close>.
\<close>

theorem heartbeat_known_peer_name_counterexample:
  "map_of (peers \<lparr>peers = [(str_of ''10.0.0.5'', 0)],
                  peer_names = [(str_of ''10.0.0.5'', JStr (str_of ''alice''))]\<rparr>)
     (str_of ''10.0.0.5'') = Some 0
   \<and> peer_names (fst (handle_discovery 2 (str_of ''10.0.0.5'') (JStr (str_of ''bob''))
       \<lparr>peers = [(str_of ''10.0.0.5'', 0)],
        peer_names = [(str_of ''10.0.0.5'', JStr (str_of ''alice''))]\<rparr>))
     \<noteq> peer_names \<lparr>peers = [(str_of ''10.0.0.5'', 0)],
                  peer_names = [(str_of ''10.0.0.5'', JStr (str_of ''alice''))]\<rparr>"
  by (simp add: handle_discovery_def str_of_def)

text \<open>
  Claim C9. When the two tables have the same keys they still have after a heartbeat,
  which leaves its address in both, after the removal of a stale address, which leaves it
  in neither when the loss is reported, and after a whole cleanup pass, which does not
  raise.
\<close>

theorem peer_tables_same_keys:
  assumes "same_keys st" and "distinct (map fst (peers st))"
  shows "same_keys (fst (handle_discovery t ip name st))
    \<and> ip \<in> set (map fst (peers (fst (handle_discovery t ip name st))))
    \<and> ip \<in> set (map fst (peer_names (fst (handle_discovery t ip name st))))
    \<and> (ip \<in> set (map fst (peers st)) \<longrightarrow>
         (\<exists>st1. remove_peer ip st = Inr (st1, [PeerLost ip]) \<and> same_keys st1
            \<and> ip \<notin> set (map fst (peers st1)) \<and> ip \<notin> set (map fst (peer_names st1))))
    \<and> (\<exists>st2 evs. cleanup t st = Inr (st2, evs) \<and> same_keys st2)"
proof -
  have a: "same_keys (fst (handle_discovery t ip name st))"
    using assms(1) by (auto simp: same_keys_def handle_discovery_def Let_def update_keys)
  have b: "ip \<in> set (map fst (peers (fst (handle_discovery t ip name st))))"
    "ip \<in> set (map fst (peer_names (fst (handle_discovery t ip name st))))"
    by (simp_all add: handle_discovery_def Let_def update_keys)
  have c: "\<exists>st1. remove_peer ip st = Inr (st1, [PeerLost ip]) \<and> same_keys st1
            \<and> ip \<notin> set (map fst (peers st1)) \<and> ip \<notin> set (map fst (peer_names st1))"
    if "ip \<in> set (map fst (peers st))"
    using that assms(1) by (simp add: remove_peer_Inr same_keys_def keys_delete)
  have d: "\<exists>st2 evs. cleanup t st = Inr (st2, evs) \<and> same_keys st2"
    using assms(1)
    by (simp add: cleanup_Inr [OF assms(2)] same_keys_def keys_filter del: set_filter)
  from a b c d show ?thesis by blast
qed

theorem peer_tables_same_keys_witness:
  "same_keys \<lparr>peers = [(str_of ''10.0.0.5'', 0), (str_of ''10.0.0.7'', 9)],
              peer_names = [(str_of ''10.0.0.5'', JStr (str_of ''alice'')),
                            (str_of ''10.0.0.7'', JStr (str_of ''bob''))]\<rparr>
   \<and> distinct (map fst [(str_of ''10.0.0.5'', 0::real), (str_of ''10.0.0.7'', 9)])
   \<and> str_of ''10.0.0.5'' \<in> set (map fst [(str_of ''10.0.0.5'', 0::real), (str_of ''10.0.0.7'', 9)])
   \<and> same_keys (fst (handle_discovery 10 (str_of ''10.0.0.5'') (JStr (str_of ''carol''))
        \<lparr>peers = [(str_of ''10.0.0.5'', 0), (str_of ''10.0.0.7'', 9)],
         peer_names = [(str_of ''10.0.0.5'', JStr (str_of ''alice'')),
                       (str_of ''10.0.0.7'', JStr (str_of ''bob''))]\<rparr>))
   \<and> (\<exists>st1. remove_peer (str_of ''10.0.0.5'')
        \<lparr>peers = [(str_of ''10.0.0.5'', 0), (str_of ''10.0.0.7'', 9)],
         peer_names = [(str_of ''10.0.0.5'', JStr (str_of ''alice'')),
                       (str_of ''10.0.0.7'', JStr (str_of ''bob''))]\<rparr>
          = Inr (st1, [PeerLost (str_of ''10.0.0.5'')])
        \<and> same_keys st1 \<and> str_of ''10.0.0.5'' \<notin> set (map fst (peers st1))
        \<and> str_of ''10.0.0.5'' \<notin> set (map fst (peer_names st1)))
   \<and> cleanup 10
        \<lparr>peers = [(str_of ''10.0.0.5'', 0), (str_of ''10.0.0.7'', 9)],
         peer_names = [(str_of ''10.0.0.5'', JStr (str_of ''alice'')),
                       (str_of ''10.0.0.7'', JStr (str_of ''bob''))]\<rparr>
      = Inr (\<lparr>peers = [(str_of ''10.0.0.7'', 9)],
              peer_names = [(str_of ''10.0.0.7'', JStr (str_of ''bob''))]\<rparr>,
             [PeerLost (str_of ''10.0.0.5'')])"
proof -
  let ?st = "\<lparr>peers = [(str_of ''10.0.0.5'', 0::real), (str_of ''10.0.0.7'', 9)],
              peer_names = [(str_of ''10.0.0.5'', JStr (str_of ''alice'')),
                            (str_of ''10.0.0.7'', JStr (str_of ''bob''))]\<rparr>"
  have k: "same_keys ?st"
    by (simp add: same_keys_def)
  have d: "distinct (map fst (peers ?st))"
    by (simp add: str_of_def)
  have m: "str_of ''10.0.0.5'' \<in> set (map fst (peers ?st))"
    by simp
  have c: "cleanup 10 ?st
      = Inr (\<lparr>peers = [(str_of ''10.0.0.7'', 9)],
              peer_names = [(str_of ''10.0.0.7'', JStr (str_of ''bob''))]\<rparr>,
             [PeerLost (str_of ''10.0.0.5'')])"
    by (simp add: cleanup_def to_remove_def remove_peer_def py_del_def DISCOVERY_INTERVAL_def
        str_of_def)
  from peer_tables_same_keys [OF k d, of 10 "str_of ''10.0.0.5''" "JStr (str_of ''carol'')"]
  have "same_keys (fst (handle_discovery 10 (str_of ''10.0.0.5'') (JStr (str_of ''carol'')) ?st))"
    and "\<exists>st1. remove_peer (str_of ''10.0.0.5'') ?st = Inr (st1, [PeerLost (str_of ''10.0.0.5'')])
        \<and> same_keys st1 \<and> str_of ''10.0.0.5'' \<notin> set (map fst (peers st1))
        \<and> str_of ''10.0.0.5'' \<notin> set (map fst (peer_names st1))"
    using m by blast+
  with k d m c show ?thesis by simp
qed

section \<open>Properties of the codec\<close>

lemma hexval_hexdigit: "d < 16 \<Longrightarrow> hexval (hexdigit d) = Some d"
  by (auto simp: hexval_def hexdigit_def)

lemma decode_hex4:
  assumes "n < 0x10000"
  shows "decode_uXXXX (hex4 n @ t) = Some n"
proof -
  define q1 where "q1 = n div 16"
  define q2 where "q2 = q1 div 16"
  define q3 where "q3 = q2 div 16"
  have d2: "n div 0x100 = q2"
    unfolding q2_def q1_def by (simp add: div_mult2_eq [symmetric])
  have d3: "n div 0x1000 = q3"
    unfolding q3_def q2_def q1_def by (simp add: div_mult2_eq [symmetric])
  have "q3 < 16" using assms unfolding d3 [symmetric] by simp
  then have m3: "q3 mod 16 = q3" by simp
  have e2: "q3 * 16 + q2 mod 16 = q2" unfolding q3_def by simp
  have e1: "q2 * 16 + q1 mod 16 = q1" unfolding q2_def by simp
  have e0: "q1 * 16 + n mod 16 = n" unfolding q1_def by simp
  have "decode_uXXXX (hex4 n @ t)
      = Some (((q3 mod 16 * 16 + q2 mod 16) * 16 + q1 mod 16) * 16 + n mod 16)"
    unfolding hex4_def d2 d3 by (simp add: decode_uXXXX_def hexval_hexdigit q1_def)
  also have "\<dots> = Some n" unfolding m3 e2 e1 e0 ..
  finally show ?thesis .
qed

lemma drop_hex4:
  "drop 4 (hex4 n @ t) = t" "drop 6 (hex4 n @ t) = drop 2 t" "drop 10 (hex4 n @ t) = drop 6 t"
  by (simp_all add: hex4_def)

lemma scanstring_special:
  "c \<in> {92, 34, 8, 12, 10, 13, 9} \<Longrightarrow> scanstring (escape_char c @ t) = cons_str c (scanstring t)"
  by (auto simp: escape_char_def backslash_def)

lemma scanstring_plain:
  "c \<notin> {92, 34, 8, 12, 10, 13, 9} \<Longrightarrow> 32 \<le> c \<Longrightarrow> c \<le> 126 \<Longrightarrow>
   scanstring (escape_char c @ t) = cons_str c (scanstring t)"
  by (auto simp: escape_char_def)

lemma scanstring_bmp:
  assumes "c \<notin> {92, 34, 8, 12, 10, 13, 9}" "\<not> (32 \<le> c \<and> c \<le> 126)" "c < 0x10000"
    "\<not> (0xD800 \<le> c \<and> c \<le> 0xDBFF)" 
  shows "scanstring (escape_char c @ t) = cons_str c (scanstring t)"
proof -
  from assms have e: "escape_char c = [92, 117] @ hex4 c" by (auto simp: escape_char_def)
  show ?thesis
    using assms(3,4) by (auto simp: e decode_hex4 drop_hex4 simp del: drop_append)
qed

lemma cases4:
  fixes c :: nat
  obtains (special) "c \<in> {92, 34, 8, 12, 10, 13, 9}"
    | (plain) "c \<notin> {92, 34, 8, 12, 10, 13, 9}" "32 \<le> c" "c \<le> 126"
    | (bmp) "c \<notin> {92, 34, 8, 12, 10, 13, 9}" "\<not> (32 \<le> c \<and> c \<le> 126)" "c < 0x10000"
    | (astral) "0x10000 \<le> c"
  by (meson not_le)

lemma scanstring_astral:
  assumes "scalar c" "0x10000 \<le> c"
  shows "scanstring (escape_char c @ t) = cons_str c (scanstring t)"
proof -
  define hi where "hi = 0xD800 + (c - 0x10000) div 0x400 mod 0x400"
  define lo where "lo = 0xDC00 + (c - 0x10000) mod 0x400"
  from assms have c: "c - 0x10000 < 0x100000" by (auto simp: scalar_def)
  then have d: "(c - 0x10000) div 0x400 mod 0x400 = (c - 0x10000) div 0x400"
    by (simp add: less_mult_imp_div_less)
  have "(c - 0x10000) div 0x400 mod 0x400 < 0x400" by simp
  then have hi: "0xD800 \<le> hi" "hi \<le> 0xDBFF" "hi < 0x10000"
    unfolding hi_def by linarith+
  have "(c - 0x10000) mod 0x400 < 0x400" by simp
  then have lo: "0xDC00 \<le> lo" "lo \<le> 0xDFFF" "lo < 0x10000"
    unfolding lo_def by linarith+
  have j: "0x10000 + ((hi - 0xD800) * 0x400 + (lo - 0xDC00)) = c"
    unfolding hi_def lo_def d using assms(2) by simp
  from assms(2) have e: "escape_char c = [92, 117] @ hex4 hi @ [92, 117] @ hex4 lo"
    by (auto simp: escape_char_def hi_def lo_def)
  show ?thesis
    using hi lo j by (simp add: e decode_hex4 drop_hex4 del: drop_append)
qed

lemma scanstring_escape:
  assumes "scalar c"
  shows "scanstring (escape_char c @ t) = cons_str c (scanstring t)"
proof (cases c rule: cases4)
  case special
  then show ?thesis by (rule scanstring_special)
next
  case plain
  then show ?thesis by (rule scanstring_plain)
next
  case bmp
  moreover from assms bmp(3) have "\<not> (0xD800 \<le> c \<and> c \<le> 0xDBFF)"
    by (auto simp: scalar_def)
  ultimately show ?thesis by (rule scanstring_bmp)
next
  case astral
  with assms show ?thesis by (rule scanstring_astral)
qed

lemma scanstring_escaped:
  "wf_str s \<Longrightarrow> scanstring (concat (map escape_char s) @ 34 # rest) = Inr (s, rest)"
  by (induction s) (simp_all add: wf_str_def scanstring_escape cons_str_def)

lemma scan_basestring:
  "wf_str s \<Longrightarrow>
   \<exists>t. encode_basestring_ascii s @ rest = 34 # t \<and> scanstring t = Inr (s, rest)"
  by (simp add: encode_basestring_ascii_def scanstring_escaped)

lemma is_digit_digits_of: "\<forall>d \<in> set (digits_of n). is_digit d"
proof (induction n rule: digits_of.induct)
  case (1 n)
  show ?case
  proof (cases "n < 10")
    case True
    then show ?thesis by (subst digits_of.simps) (simp add: is_digit_def)
  next
    case False
    have "n mod 10 < 10" by simp
    then have "is_digit (48 + n mod 10)" unfolding is_digit_def by linarith
    with False 1 show ?thesis by (subst digits_of.simps) simp
  qed
qed

lemma digits_val_append: "digits_val (ds @ [d]) = digits_val ds * 10 + (d - 48)"
  by (simp add: digits_val_def)

lemma digits_val_digits_of: "digits_val (digits_of n) = n"
proof (induction n rule: digits_of.induct)
  case (1 n)
  show ?case
  proof (cases "n < 10")
    case True
    then show ?thesis by (subst digits_of.simps) (simp add: digits_val_def)
  next
    case False
    with 1 show ?thesis
      by (subst digits_of.simps) (simp add: digits_val_append)
  qed
qed

lemma digits_of_head:
  "\<exists>d ds. digits_of n = d # ds \<and> (if n = 0 then d = 48 \<and> ds = [] else 49 \<le> d \<and> d \<le> 57)"
proof (induction n rule: digits_of.induct)
  case (1 n)
  show ?case
  proof (cases "n < 10")
    case True
    then show ?thesis by (subst digits_of.simps) auto
  next
    case False
    then have "n div 10 \<noteq> 0" by simp
    with False 1 obtain d ds where "digits_of (n div 10) = d # ds" "49 \<le> d" "d \<le> 57"
      by auto
    with False show ?thesis by (subst digits_of.simps) auto
  qed
qed

lemma number_tail_delim:
  "delim rest \<Longrightarrow>
   number_tail neg ds rest
     = (JInt (if neg then - int (digits_val ds) else int (digits_val ds)), rest)"
  by (cases rest; cases "tl rest")
     (auto simp: delim_def number_tail_def match_frac_def match_exp_def Let_def)

lemma takeWhile_digits_delim:
  assumes "\<forall>d \<in> set ds. is_digit d" "delim rest"
  shows "takeWhile is_digit (ds @ rest) = ds" "dropWhile is_digit (ds @ rest) = rest"
proof -
  have "takeWhile is_digit rest = []" "dropWhile is_digit rest = rest"
    using assms(2) by (cases rest; auto simp: delim_def is_digit_def)+
  then show "takeWhile is_digit (ds @ rest) = ds" "dropWhile is_digit (ds @ rest) = rest"
    using assms(1) by (simp_all add: takeWhile_append2 dropWhile_append2)
qed

lemma match_number_nat:
  assumes "delim rest"
  shows "match_number (digits_of n @ rest) = Some (JInt (int n), rest)"
proof -
  from digits_of_head [of n] obtain d ds where
    dd: "digits_of n = d # ds" and h: "if n = 0 then d = 48 \<and> ds = [] else 49 \<le> d \<and> d \<le> 57"
    by blast
  have v: "digits_val (d # ds) = n" using digits_val_digits_of [of n] dd by simp
  have dig: "\<forall>x \<in> set ds. is_digit x" using is_digit_digits_of [of n] dd by simp
  show ?thesis
  proof (cases "n = 0")
    case True
    with h dd have z: "digits_of n = [48]" by simp
    have "match_number ([48] @ rest) = Some (JInt 0, rest)"
      by (simp add: match_number_def number_tail_delim [OF assms] digits_val_def)
    with True show ?thesis unfolding z by simp
  next
    case False
    with h have "49 \<le> d" "d \<le> 57" by simp_all
    then show ?thesis
      using v by (simp add: dd match_number_def takeWhile_digits_delim [OF dig assms]
          number_tail_delim [OF assms])
  qed
qed

lemma match_number_int:
  assumes "delim rest"
  shows "match_number (int_repr i @ rest) = Some (JInt i, rest)"
proof (cases "i < 0")
  case False
  then show ?thesis
    using match_number_nat [OF assms, of "nat i"] by (simp add: int_repr_def)
next
  case True
  define n where "n = nat (- i)"
  from True have n0: "n \<noteq> 0" and i: "i = - int n" by (simp_all add: n_def)
  from digits_of_head [of n] n0 obtain d ds where
    dd: "digits_of n = d # ds" and h: "49 \<le> d" "d \<le> 57"
    by auto
  have v: "digits_val (d # ds) = n" using digits_val_digits_of [of n] dd by simp
  have dig: "\<forall>x \<in> set ds. is_digit x" using is_digit_digits_of [of n] dd by simp
  have "match_number (45 # d # ds @ rest) = Some (JInt (- int n), rest)"
    using h v by (simp add: match_number_def takeWhile_digits_delim [OF dig assms]
        number_tail_delim [OF assms])
  then show ?thesis
    using True by (simp add: int_repr_def n_def [symmetric] dd i)
qed

lemma int_repr_head: "\<exists>c t. int_repr i = c # t \<and> (c = 45 \<or> is_digit c)"
proof -
  obtain d ds where "digits_of (nat i) = d # ds" "is_digit d"
    using digits_of_head [of "nat i"] by (auto simp: is_digit_def split: if_splits)
  then show ?thesis by (auto simp: int_repr_def)
qed

lemma update_fresh: "k \<notin> fst ` set d \<Longrightarrow> AList.update k v d = d @ [(k, v)]"
  by (induction d) auto

lemma foldl_update_distinct:
  "distinct (map fst (acc @ kvs)) \<Longrightarrow>
   foldl (\<lambda>d (k, v). AList.update k v d) acc kvs = acc @ kvs"
proof (induction kvs arbitrary: acc)
  case Nil
  then show ?case by simp
next
  case (Cons kv kvs)
  obtain k v where kv: "kv = (k, v)" by (cases kv)
  from Cons.prems kv have f: "k \<notin> fst ` set acc" by auto
  have "distinct (map fst ((acc @ [(k, v)]) @ kvs))" using Cons.prems kv by simp
  from Cons.IH [OF this] show ?case by (simp add: kv update_fresh [OF f])
qed

lemma dict_distinct: "distinct (map fst kvs) \<Longrightarrow> dict kvs = kvs"
  using foldl_update_distinct [of "[]" kvs] by (simp add: dict_def)

lemma dumps_head: "wf_json v \<Longrightarrow> \<exists>c t. json_dumps v = c # t \<and> value_start c"
proof (cases v)
  case (JInt i)
  then show ?thesis using int_repr_head [of i] by (auto simp: value_start_def)
qed (auto simp: str_of_def value_start_def encode_basestring_ascii_def)

lemma value_start_not_ws: "value_start c \<Longrightarrow> \<not> is_ws c \<and> c \<noteq> 93 \<and> c \<noteq> 125"
  by (auto simp: value_start_def is_ws_def is_digit_def)

lemma skip_ws_start: "value_start c \<Longrightarrow> skip_ws (c # t) = c # t"
  by (simp add: skip_ws_def value_start_not_ws)

lemma skip_ws_dumps: "wf_json v \<Longrightarrow> skip_ws (json_dumps v @ t) = json_dumps v @ t"
  using dumps_head [of v] by (auto simp: skip_ws_start)

lemma skip_ws_delims [simp]:
  "skip_ws (44 # t) = 44 # t" "skip_ws (93 # t) = 93 # t" "skip_ws (125 # t) = 125 # t"
  "skip_ws (58 # t) = 58 # t" "skip_ws (34 # t) = 34 # t" "skip_ws (32 # t) = skip_ws t"
  "skip_ws [] = []"
  by (simp_all add: skip_ws_def is_ws_def)

lemma scan_once_int:
  assumes "delim rest"
  shows "scan_once (Suc n) (int_repr i @ rest) = Inr (JInt i, rest)"
proof -
  from int_repr_head [of i] obtain c t where
    ct: "int_repr i = c # t" and c: "c = 45 \<or> is_digit c" by blast
  from c have ne: "c \<noteq> 34" "c \<noteq> 123" "c \<noteq> 91" "c \<noteq> 110" "c \<noteq> 116" "c \<noteq> 102"
    by (auto simp: is_digit_def)
  have m: "match_number (c # t @ rest) = Some (JInt i, rest)"
    using match_number_int [OF assms, of i] by (simp add: ct)
  show ?thesis
    using ne by (simp add: ct m str_of_def)
qed

lemma scan_once_str:
  assumes "wf_str s"
  shows "scan_once (Suc n) (encode_basestring_ascii s @ rest) = Inr (JStr s, rest)"
  using assms by (simp add: encode_basestring_ascii_def scanstring_escaped)

lemma join_Cons: "\<exists>u. join sep (x # xs) = x @ u"
  by (cases xs) auto

lemma parse_array_dumps:
  assumes "vs \<noteq> []"
    and "\<forall>v \<in> set vs. wf_json v"
    and "\<forall>v \<in> set vs. \<forall>n rest. delim rest \<longrightarrow> 2 * length (json_dumps v) < n \<longrightarrow>
           scan_once n (json_dumps v @ rest) = Inr (v, rest)"
    and "2 * length (join (str_of '', '') (map json_dumps vs)) + 1 < n"
  shows "parse_array n (join (str_of '', '') (map json_dumps vs) @ 93 # rest) = Inr (vs, rest)"
  using assms
proof (induction vs arbitrary: n rule: list_nonempty_induct)
  case (single v)
  then obtain n' where n: "n = Suc n'" by (cases n) auto
  have l: "2 * length (json_dumps v) < n'" using single.prems(3) n by simp
  have d: "delim (93 # rest)" by (simp add: delim_def)
  have "scan_once n' (json_dumps v @ 93 # rest) = Inr (v, 93 # rest)"
    using single.prems(2) d l by simp
  then show ?case by (simp add: n)
next
  case (cons v vs)
  then obtain n' where n: "n = Suc n'" by (cases n) auto
  obtain w ws where vs: "vs = w # ws" using cons.hyps by (cases vs) auto
  let ?tail = "join (str_of '', '') (map json_dumps vs) @ 93 # rest"
  have j: "join (str_of '', '') (map json_dumps (v # vs))
      = json_dumps v @ [44, 32] @ join (str_of '', '') (map json_dumps vs)"
    by (simp add: vs str_of_def)
  have l: "2 * length (json_dumps v) < n'"
    and l': "2 * length (join (str_of '', '') (map json_dumps vs)) + 1 < n'"
    using cons.prems(3) unfolding n j by simp_all
  have d: "delim (44 # 32 # ?tail)" by (simp add: delim_def)
  have s: "scan_once n' (json_dumps v @ 44 # 32 # ?tail) = Inr (v, 44 # 32 # ?tail)"
    using cons.prems(2) d l by simp
  obtain u where u: "join (str_of '', '') (map json_dumps vs) = json_dumps w @ u"
    using join_Cons [of "str_of '', ''" "json_dumps w" "map json_dumps ws"] by (auto simp: vs)
  have "wf_json w" using cons.prems(1) vs by simp
  then have sk: "skip_ws ?tail = ?tail"
    using skip_ws_dumps [of w "u @ 93 # rest"] by (simp add: u)
  have p: "parse_array n' ?tail = Inr (vs, rest)"
    using cons.prems(1,2) l' by (intro cons.IH) auto
  show ?case
    unfolding n j by (simp add: s sk p)
qed

lemma member_head: "\<exists>u. member kv = 34 # u"
  by (simp add: member_def encode_basestring_ascii_def)

lemma member_text:
  "member (k, v) @ t = 34 # concat (map escape_char k) @ 34 # 58 # 32 # json_dumps v @ t"
  by (simp add: member_def encode_basestring_ascii_def str_of_def)

lemma length_member: "length (json_dumps v) < length (member (k, v))"
  by (simp add: member_def str_of_def)

lemma parse_object_step:
  assumes "wf_str k" "wf_json v" 
    and "scan_once n (json_dumps v @ t) = Inr (v, t)"
  shows "parse_object (Suc n) (member (k, v) @ t) =
    (case skip_ws t of
       [] \<Rightarrow> Inl JSONDecodeError
     | d # r1 \<Rightarrow>
         if d = 125 then Inr ([(k, v)], r1)
         else if d = 44 then
           (case parse_object n (skip_ws r1) of
              Inl e \<Rightarrow> Inl e
            | Inr (kvs, rest2) \<Rightarrow> Inr ((k, v) # kvs, rest2))
         else Inl JSONDecodeError)"
  unfolding member_text
  using assms by (simp add: scanstring_escaped skip_ws_dumps)

lemma parse_object_dumps:
  assumes "kvs \<noteq> []"
    and "\<forall>kv \<in> set kvs. wf_str (fst kv) \<and> wf_json (snd kv)"
    and "\<forall>kv \<in> set kvs. \<forall>n rest. delim rest \<longrightarrow> 2 * length (json_dumps (snd kv)) < n \<longrightarrow>
           scan_once n (json_dumps (snd kv) @ rest) = Inr (snd kv, rest)"
    and "2 * length (join (str_of '', '') (map member kvs)) + 1 < n"
  shows "parse_object n (join (str_of '', '') (map member kvs) @ 125 # rest) = Inr (kvs, rest)"
  using assms
proof (induction kvs arbitrary: n rule: list_nonempty_induct)
  case (single kv)
  then obtain n' where n: "n = Suc n'" by (cases n) auto
  obtain k v where kv: "kv = (k, v)" by (cases kv)
  have wf: "wf_str k" "wf_json v" using single.prems(1) kv by simp_all
  have "2 * length (member (k, v)) + 1 < n" using single.prems(3) kv by simp
  then have l: "2 * length (json_dumps v) < n'"
    using length_member [of v k] n by linarith
  have d: "delim (125 # rest)" by (simp add: delim_def)
  have s: "scan_once n' (json_dumps v @ 125 # rest) = Inr (v, 125 # rest)"
    using single.prems(2) d l kv by simp
  show ?case
    unfolding n kv by (simp add: parse_object_step [OF wf s] del: parse_object.simps)
next
  case (cons kv kvs)
  then obtain n' where n: "n = Suc n'" by (cases n) auto
  obtain k v where kv: "kv = (k, v)" by (cases kv)
  have wf: "wf_str k" "wf_json v" using cons.prems(1) kv by simp_all
  obtain kv' kvs' where kvs: "kvs = kv' # kvs'" using cons.hyps by (cases kvs) auto
  let ?tail = "join (str_of '', '') (map member kvs) @ 125 # rest"
  have j: "join (str_of '', '') (map member (kv # kvs))
      = member (k, v) @ [44, 32] @ join (str_of '', '') (map member kvs)"
    by (simp add: kvs kv str_of_def)
  have "2 * (length (member (k, v)) + 2 + length (join (str_of '', '') (map member kvs))) + 1 < n"
    using cons.prems(3) unfolding j by simp
  then have l: "2 * length (json_dumps v) < n'"
    and l': "2 * length (join (str_of '', '') (map member kvs)) + 1 < n'"
    using length_member [of v k] n by simp_all
  have d: "delim (44 # 32 # ?tail)" by (simp add: delim_def)
  have s: "scan_once n' (json_dumps v @ 44 # 32 # ?tail) = Inr (v, 44 # 32 # ?tail)"
    using cons.prems(2) d l kv by simp
  obtain u where u: "join (str_of '', '') (map member kvs) = member kv' @ u"
    using join_Cons [of "str_of '', ''" "member kv'" "map member kvs'"] by (auto simp: kvs)
  obtain u' where u': "member kv' = 34 # u'" using member_head by blast
  have sk: "skip_ws ?tail = ?tail" by (simp add: u u')
  have p: "parse_object n' ?tail = Inr (kvs, rest)"
    using cons.prems(1,2) l' by (intro cons.IH) auto
  have t: "join (str_of '', '') (map member (kv # kvs)) @ 125 # rest
      = member (k, v) @ 44 # 32 # ?tail"
    unfolding j by simp
  have "parse_object (Suc n') (member (k, v) @ 44 # 32 # ?tail) = Inr ((k, v) # kvs, rest)"
    by (simp add: parse_object_step [OF wf s] sk p del: parse_object.simps)
  then show ?case
    unfolding n t unfolding kv .
qed

lemma scan_once_dumps:
  "wf_json v \<Longrightarrow> delim rest \<Longrightarrow> 2 * length (json_dumps v) < n \<Longrightarrow>
   scan_once n (json_dumps v @ rest) = Inr (v, rest)"
proof (induction v arbitrary: n rest)
  case JNull
  then obtain n' where "n = Suc n'" by (cases n) auto
  then show ?case by (simp add: str_of_def)
next
  case (JBool b)
  then obtain n' where "n = Suc n'" by (cases n) auto
  then show ?case by (simp add: str_of_def)
next
  case (JInt i)
  then obtain n' where "n = Suc n'" by (cases n) auto
  with JInt show ?case by (simp add: scan_once_int)
next
  case (JFloat lit)
  then show ?case by simp
next
  case (JStr s)
  then obtain n' where "n = Suc n'" by (cases n) auto
  with JStr show ?case by (simp add: scan_once_str)
next
  case (JArr vs)
  then obtain n' where n: "n = Suc n'" by (cases n) auto
  show ?case
  proof (cases "vs = []")
    case True
    then show ?thesis by (simp add: n)
  next
    case False
    have ih: "\<forall>v \<in> set vs. \<forall>n rest. delim rest \<longrightarrow> 2 * length (json_dumps v) < n \<longrightarrow>
           scan_once n (json_dumps v @ rest) = Inr (v, rest)"
      using JArr.IH JArr.prems(1) by simp
    have wf: "\<forall>v \<in> set vs. wf_json v" using JArr.prems(1) by simp
    let ?body = "join (str_of '', '') (map json_dumps vs)"
    have f: "2 * length ?body + 1 < n'" using JArr.prems(3) n by simp
    have p: "parse_array n' (?body @ 93 # rest) = Inr (vs, rest)"
      using parse_array_dumps [OF False wf ih f] .
    obtain w ws where vs: "vs = w # ws" using False by (cases vs) auto
    obtain u where u: "?body = json_dumps w @ u"
      using join_Cons [of "str_of '', ''" "json_dumps w" "map json_dumps ws"] by (auto simp: vs)
    have "wf_json w" using wf vs by simp
    then obtain c t where ct: "json_dumps w = c # t" and c: "value_start c"
      using dumps_head by blast
    have b: "?body @ 93 # rest = c # t @ u @ 93 # rest" by (simp add: u ct)
    show ?thesis
      using p c value_start_not_ws [OF c] unfolding b
      by (simp add: n b skip_ws_start)
  qed
next
  case (JObj kvs)
  then obtain n' where n: "n = Suc n'" by (cases n) auto
  show ?case
  proof (cases "kvs = []")
    case True
    then show ?thesis by (simp add: n)
  next
    case False
    have ih: "\<forall>kv \<in> set kvs. \<forall>n rest. delim rest \<longrightarrow> 2 * length (json_dumps (snd kv)) < n \<longrightarrow>
           scan_once n (json_dumps (snd kv) @ rest) = Inr (snd kv, rest)"
    proof (intro ballI allI impI)
      fix kv n rest
      assume kv: "kv \<in> set kvs" and d: "delim rest" and l: "2 * length (json_dumps (snd kv)) < n"
      have "snd kv \<in> Basic_BNFs.snds kv" by (cases kv) simp
      moreover have "wf_json (snd kv)" using JObj.prems(1) kv by simp
      ultimately show "scan_once n (json_dumps (snd kv) @ rest) = Inr (snd kv, rest)"
        using JObj.IH kv d l by blast
    qed
    have wf: "\<forall>kv \<in> set kvs. wf_str (fst kv) \<and> wf_json (snd kv)" using JObj.prems(1) by simp
    have dist: "distinct (map fst kvs)" using JObj.prems(1) by simp
    have me: "(\<lambda>(k, v). encode_basestring_ascii k @ str_of '': '' @ json_dumps v) = member"
      by (auto simp: member_def fun_eq_iff)
    let ?body = "join (str_of '', '') (map member kvs)"
    have f: "2 * length ?body + 1 < n'" using JObj.prems(3) n by (simp add: me)
    have p: "parse_object n' (?body @ 125 # rest) = Inr (kvs, rest)"
      using parse_object_dumps [OF False wf ih f] .
    obtain kv' kvs' where kvs: "kvs = kv' # kvs'" using False by (cases kvs) auto
    obtain u where u: "?body = member kv' @ u"
      using join_Cons [of "str_of '', ''" "member kv'" "map member kvs'"] by (auto simp: kvs)
    obtain u' where u': "member kv' = 34 # u'" using member_head by blast
    have b: "?body @ 125 # rest = 34 # u' @ u @ 125 # rest" by (simp add: u u')
    show ?thesis
      using p unfolding b
      by (simp add: n me b dict_distinct [OF dist])
  qed
qed

lemma json_loads_dumps: "wf_json v \<Longrightarrow> json_loads (json_dumps v) = Inr v"
proof -
  assume wf: "wf_json v"
  from dumps_head [OF wf] obtain c t where ct: "json_dumps v = c # t" and c: "value_start c"
    by blast
  have bom: "take 1 (json_dumps v) \<noteq> [0xFEFF]"
    using c by (auto simp: ct value_start_def is_digit_def)
  have "scan_once (2 * length (json_dumps v) + 1) (json_dumps v @ []) = Inr (v, [])"
    using wf by (intro scan_once_dumps) (simp_all add: delim_def)
  then show ?thesis
    using bom skip_ws_dumps [OF wf, of "[]"] by (simp add: json_loads_def)
qed

lemma hexdigit_ascii: "d < 16 \<Longrightarrow> hexdigit d < 128"
  by (simp add: hexdigit_def)

lemma hex4_ascii: "\<forall>c \<in> set (hex4 n). c < 128"
  by (simp add: hex4_def hexdigit_ascii)

lemma escape_char_ascii: "\<forall>x \<in> set (escape_char c). x < 128"
  using hex4_ascii by (auto simp: escape_char_def)

lemma basestring_ascii: "\<forall>x \<in> set (encode_basestring_ascii s). x < 128"
  using escape_char_ascii by (auto simp: encode_basestring_ascii_def)

lemma int_repr_ascii: "\<forall>x \<in> set (int_repr i). x < 128"
  using is_digit_digits_of by (auto simp: int_repr_def is_digit_def) fastforce+

lemma join_ascii:
  "\<forall>x \<in> set sep. x < (128::nat) \<Longrightarrow> \<forall>s \<in> set xs. \<forall>x \<in> set s. x < 128 \<Longrightarrow>
   \<forall>x \<in> set (join sep xs). x < 128"
  by (induction sep xs rule: join.induct) auto

lemma json_dumps_ascii: "wf_json v \<Longrightarrow> \<forall>x \<in> set (json_dumps v). x < 128"
proof (induction v)
  case (JArr vs)
  then have "\<forall>s \<in> set (map json_dumps vs). \<forall>x \<in> set s. x < 128" by auto
  then have "\<forall>x \<in> set (join (str_of '', '') (map json_dumps vs)). x < 128"
    by (intro join_ascii) (simp_all add: str_of_def)
  then show ?case by auto
next
  case (JObj kvs)
  have "\<forall>s \<in> set (map member kvs). \<forall>x \<in> set s. x < 128"
  proof (intro ballI)
    fix s x assume "s \<in> set (map member kvs)" "x \<in> set s"
    then obtain k v where kv: "(k, v) \<in> set kvs" and x: "x \<in> set (member (k, v))" by auto
    have "v \<in> Basic_BNFs.snds (k, v)" by simp
    moreover have "wf_json v" using JObj.prems kv by auto
    ultimately have "\<forall>x \<in> set (json_dumps v). x < 128" using JObj.IH kv by blast
    with x basestring_ascii [of k] show "x < 128"
      by (auto simp: member_def str_of_def)
  qed
  then have "\<forall>x \<in> set (join (str_of '', '') (map member kvs)). x < 128"
    by (intro join_ascii) (simp_all add: str_of_def)
  moreover have "(\<lambda>(k, v). encode_basestring_ascii k @ str_of '': '' @ json_dumps v) = member"
    by (auto simp: member_def fun_eq_iff)
  ultimately show ?case by auto
qed (use basestring_ascii int_repr_ascii in \<open>auto simp: str_of_def\<close>)

lemma utf8_enc_ascii: "\<forall>x \<in> set s. x < 128 \<Longrightarrow> utf8_enc s = Inr s"
  by (induction s) (simp_all add: utf8_enc1_def)

lemma utf8_dec_ascii: "\<forall>x \<in> set s. x < 128 \<Longrightarrow> utf8_dec s = Inr s"
  by (induction s) simp_all

lemma utf8_roundtrip_ascii:
  assumes "\<forall>x \<in> set s. x < 128"
  shows "\<exists>data. utf8_encode s = Inr data \<and> utf8_decode data = Inr s"
proof -
  have "map of_char (map char_of s :: char list) = s"
    using assms by (induction s) (simp_all add: of_char_of)
  then show ?thesis
    using assms by (simp add: utf8_encode_def utf8_decode_def utf8_enc_ascii utf8_dec_ascii)
qed

lemma MessageType_call_value: "MessageType_call (JStr (MessageType_value t)) = Inr t"
  by (cases t) (simp_all add: MessageType_call_def MessageType_members_def str_of_def)

lemma field_names_distinct:
  "str_of ''type'' \<noteq> str_of ''sender_name''" "str_of ''type'' \<noteq> str_of ''sender_ip''"
  "str_of ''type'' \<noteq> str_of ''payload''" "str_of ''sender_name'' \<noteq> str_of ''sender_ip''"
  "str_of ''sender_name'' \<noteq> str_of ''payload''" "str_of ''sender_ip'' \<noteq> str_of ''payload''"
  by (simp_all add: str_of_def)

lemma wf_str_of: "\<forall>c \<in> set s. of_char c < (128::nat) \<Longrightarrow> wf_str (str_of s)"
  by (induction s) (auto simp: wf_str_def str_of_def scalar_def)

lemma wf_MessageType_value: "wf_str (MessageType_value t)"
  by (cases t) (simp_all add: wf_str_def str_of_def scalar_def)

lemma wf_envelope_json: "valid_envelope m \<Longrightarrow> wf_json (envelope_json m)"
proof -
  assume v: "valid_envelope m"
  have k: "wf_str (str_of ''type'')" "wf_str (str_of ''sender_name'')"
    "wf_str (str_of ''sender_ip'')" "wf_str (str_of ''payload'')"
    by (simp_all add: wf_str_def str_of_def scalar_def)
  have f: "wf_json (sender_name m)" "wf_json (sender_ip m)" "wf_json (payload m)"
    using v by (auto simp: valid_envelope_def split: json.splits)
  show ?thesis
    using field_names_distinct k f
    by (simp add: envelope_json_def wf_MessageType_value)
qed

lemma from_json_to_json: "valid_envelope m \<Longrightarrow> from_json (to_json m) = Inr m"
proof -
  assume v: "valid_envelope m"
  have l: "json_loads (to_json m) = Inr (envelope_json m)"
    using json_loads_dumps [OF wf_envelope_json [OF v]]
    by (simp add: to_json_def envelope_json_def)
  show ?thesis
    using field_names_distinct
    by (simp add: from_json_def l envelope_json_def MessageType_call_value Message_init_def)
qed

lemma from_json_from_data:
  "from_json s = (case json_loads s of Inl e \<Rightarrow> Inl e | Inr data \<Rightarrow> from_data data)"
  by (simp add: from_json_def from_data_def split: sum.splits)

lemma str_of_ascii: "list_all (\<lambda>c. of_char c < (128::nat)) data \<Longrightarrow> \<forall>x \<in> set (str_of data). x < 128"
  by (induction data) (simp_all add: str_of_def)

lemma utf8_decode_ascii:
  "list_all (\<lambda>c. of_char c < (128::nat)) data \<Longrightarrow> utf8_decode data = Inr (str_of data)"
  using utf8_dec_ascii [OF str_of_ascii] by (simp add: utf8_decode_def str_of_def)

lemma utf8_encode_ascii:
  assumes "list_all (\<lambda>c. of_char c < (128::nat)) data"
  shows "utf8_encode (str_of data) = Inr data"
proof -
  have "map char_of (str_of data) = data"
    by (induction data) (simp_all add: str_of_def)
  then show ?thesis
    using utf8_enc_ascii [OF str_of_ascii [OF assms]] by (simp add: utf8_encode_def)
qed

lemma from_bytes_dumps:
  assumes "list_all (\<lambda>c. of_char c < (128::nat)) data" "str_of data = json_dumps v" "wf_json v"
  shows "from_bytes data = from_data v"
  using assms json_loads_dumps [OF assms(3)]
  by (simp add: from_bytes_def utf8_decode_ascii from_json_from_data)

lemma to_bytes_literal:
  assumes "list_all (\<lambda>c. of_char c < (128::nat)) data" "to_json m = str_of data"
  shows "to_bytes m = Inr data"
  using assms by (simp add: to_bytes_def utf8_encode_ascii)

lemma ascii_hi: "list_all (\<lambda>c. of_char c < (128::nat)) hi_body"
  by (simp add: hi_body_def)

lemma to_json_hi: "to_json (text_message (str_of ''alice'') (str_of ''hi'')) = str_of hi_body"
  by (simp add: to_json_def text_message_def hi_body_def str_of_def
      encode_basestring_ascii_def escape_char_def)

lemma to_bytes_hi: "to_bytes (text_message (str_of ''alice'') (str_of ''hi'')) = Inr hi_body"
  using ascii_hi to_json_hi by (rule to_bytes_literal)

lemma decode_encode_valid:
  assumes "valid_envelope m"
  shows "decode_encode m = Inr m"
proof -
  have "\<forall>x \<in> set (to_json m). x < 128"
    using json_dumps_ascii [OF wf_envelope_json [OF assms]]
    by (simp add: to_json_def envelope_json_def)
  from utf8_roundtrip_ascii [OF this] obtain data where
    "utf8_encode (to_json m) = Inr data" "utf8_decode data = Inr (to_json m)" by blast
  then show ?thesis
    using from_json_to_json [OF assms]
    by (simp add: decode_encode_def to_bytes_def from_bytes_def)
qed


lemma valid_hi: "valid_envelope (text_message (str_of ''alice'') (str_of ''hi''))"
  by (simp add: valid_envelope_def text_message_def wf_str_def str_of_def scalar_def)




lemma from_bytes_cases:
  "from_bytes data =
    (case utf8_decode data of
       Inl e \<Rightarrow> Inl e
     | Inr s \<Rightarrow> (case json_loads s of Inl e \<Rightarrow> Inl e | Inr v \<Rightarrow> from_data v))"
  by (simp add: from_bytes_def from_json_from_data split: sum.splits)

lemma map_of_delete_type:
  "k \<noteq> str_of ''type'' \<Longrightarrow> map_of (AList.delete (str_of ''type'') d) k = map_of d k"
  by (simp add: delete_conv')

lemma Message_init_cases:
  "Message_init t kw = Inl TypeError \<or> (\<exists>m. Message_init t kw = Inr m)"
  by (auto simp: Message_init_def split: option.splits)

lemma Message_init_missing:
  "map_of kw (str_of ''sender_name'') = None \<or> map_of kw (str_of ''sender_ip'') = None \<Longrightarrow>
   Message_init t kw = Inl TypeError"
  by (auto simp: Message_init_def split: option.splits)

lemma Message_init_extra:
  "k \<in> set (map fst kw) \<Longrightarrow>
   k \<notin> {str_of ''sender_name'', str_of ''sender_ip'', str_of ''payload''} \<Longrightarrow>
   Message_init t kw = Inl TypeError"
  by (auto simp: Message_init_def list_all_iff)

lemma MessageType_call_cases:
  "MessageType_call v = Inl ValueError \<or> (\<exists>t. MessageType_call v = Inr t)"
  by (auto simp: MessageType_call_def split: json.splits option.splits)

lemma MessageType_call_unrecognized:
  "\<not> recognized v \<Longrightarrow> MessageType_call v = Inl ValueError"
  by (auto simp: MessageType_call_def MessageType_members_def recognized_def split: json.splits)

lemma from_data_lacks:
  "lacks_required v \<Longrightarrow> from_data v \<in> {Inl KeyError, Inl TypeError, Inl ValueError}"
proof (cases v)
  case (JObj d)
  assume l: "lacks_required v"
  show ?thesis
  proof (cases "map_of d (str_of ''type'')")
    case None
    then show ?thesis by (simp add: JObj from_data_def)
  next
    case (Some tv)
    with l JObj have m: "map_of d (str_of ''sender_name'') = None \<or> map_of d (str_of ''sender_ip'') = None"
      by (simp add: lacks_required_def)
    have "map_of (AList.delete (str_of ''type'') d) (str_of ''sender_name'') = None
        \<or> map_of (AList.delete (str_of ''type'') d) (str_of ''sender_ip'') = None"
      using m field_names_distinct by (simp add: map_of_delete_type)
    then have "\<And>t. Message_init t (AList.delete (str_of ''type'') d) = Inl TypeError"
      by (rule Message_init_missing)
    then show ?thesis
      using MessageType_call_cases [of tv] by (auto simp: JObj from_data_def Some)
  qed
qed (simp_all add: from_data_def)

lemma from_data_unrecognized:
  "map_of d (str_of ''type'') = Some tv \<Longrightarrow> \<not> recognized tv \<Longrightarrow>
   from_data (JObj d) = Inl ValueError"
  by (simp add: from_data_def MessageType_call_unrecognized)

lemma from_data_extra:
  assumes "k \<in> set (map fst d)"
    and "k \<notin> {str_of ''type'', str_of ''sender_name'', str_of ''sender_ip'', str_of ''payload''}"
  shows "from_data (JObj d) \<in> {Inl KeyError, Inl TypeError, Inl ValueError}"
proof (cases "map_of d (str_of ''type'')")
  case None
  then show ?thesis by (simp add: from_data_def)
next
  case (Some tv)
  have "k \<in> set (map fst (AList.delete (str_of ''type'') d))"
    using assms by (auto simp: delete_keys)
  then have "\<And>t. Message_init t (AList.delete (str_of ''type'') d) = Inl TypeError"
    using assms(2) by (intro Message_init_extra [of k]) auto
  then show ?thesis
    using MessageType_call_cases [of tv] by (auto simp: from_data_def Some)
qed

lemma from_data_no_payload:
  assumes "map_of d (str_of ''type'') = Some (JStr (MessageType_value t))"
    and "map_of d (str_of ''sender_name'') = Some n"
    and "map_of d (str_of ''sender_ip'') = Some i"
    and "map_of d (str_of ''payload'') = None"
    and "set (map fst d) \<subseteq> {str_of ''type'', str_of ''sender_name'', str_of ''sender_ip''}"
  shows "from_data (JObj d) = Inr \<lparr>type = t, sender_name = n, sender_ip = i, payload = JNull\<rparr>"
proof -
  have "set (map fst (AList.delete (str_of ''type'') d))
      \<subseteq> {str_of ''sender_name'', str_of ''sender_ip''}"
    using assms(5) by (auto simp: delete_keys)
  then have "list_all (\<lambda>k. k = str_of ''sender_name'' \<or> k = str_of ''sender_ip''
                 \<or> k = str_of ''payload'') (map fst (AList.delete (str_of ''type'') d))"
    by (auto simp: list_all_iff)
  then show ?thesis
    using assms(1-4) field_names_distinct
    by (simp add: from_data_def MessageType_call_value Message_init_def map_of_delete_type)
qed

lemma literal_loads:
  assumes "list_all (\<lambda>c. of_char c < (128::nat)) data" "str_of data = json_dumps v" "wf_json v"
  shows "utf8_decode data = Inr (str_of data)" "json_loads (str_of data) = Inr v"
  using assms json_loads_dumps [OF assms(3)] by (simp_all add: utf8_decode_ascii)

lemma no_payload_loads:
  shows "utf8_decode no_payload_body = Inr (str_of no_payload_body)"
    and "json_loads (str_of no_payload_body)
     = Inr (JObj [(str_of ''type'', JStr (str_of ''TEXT'')),
                  (str_of ''sender_name'', JStr (str_of ''a'')),
                  (str_of ''sender_ip'', JStr (str_of ''b''))])"
proof -
  let ?v = "JObj [(str_of ''type'', JStr (str_of ''TEXT'')),
                  (str_of ''sender_name'', JStr (str_of ''a'')),
                  (str_of ''sender_ip'', JStr (str_of ''b''))]"
  have a: "list_all (\<lambda>c. of_char c < (128::nat)) no_payload_body"
    by (simp add: no_payload_body_def)
  have j: "str_of no_payload_body = json_dumps ?v"
    by (simp add: no_payload_body_def str_of_def encode_basestring_ascii_def escape_char_def)
  have w: "wf_json ?v"
    by (simp add: wf_str_def str_of_def scalar_def)
  show "utf8_decode no_payload_body = Inr (str_of no_payload_body)"
    using a j w by (rule literal_loads(1))
  show "json_loads (str_of no_payload_body) = Inr ?v"
    using a j w by (rule literal_loads(2))
qed

lemma no_sender_ip_loads:
  shows "utf8_decode no_sender_ip_body = Inr (str_of no_sender_ip_body)"
    and "json_loads (str_of no_sender_ip_body)
     = Inr (JObj [(str_of ''type'', JStr (str_of ''TEXT'')),
                  (str_of ''sender_name'', JStr (str_of ''a''))])"
proof -
  let ?v = "JObj [(str_of ''type'', JStr (str_of ''TEXT'')),
                  (str_of ''sender_name'', JStr (str_of ''a''))]"
  have a: "list_all (\<lambda>c. of_char c < (128::nat)) no_sender_ip_body"
    by (simp add: no_sender_ip_body_def)
  have j: "str_of no_sender_ip_body = json_dumps ?v"
    by (simp add: no_sender_ip_body_def str_of_def encode_basestring_ascii_def escape_char_def)
  have w: "wf_json ?v"
    by (simp add: wf_str_def str_of_def scalar_def)
  show "utf8_decode no_sender_ip_body = Inr (str_of no_sender_ip_body)"
    using a j w by (rule literal_loads(1))
  show "json_loads (str_of no_sender_ip_body) = Inr ?v"
    using a j w by (rule literal_loads(2))
qed

lemma bad_type_loads:
  shows "utf8_decode bad_type_body = Inr (str_of bad_type_body)"
    and "json_loads (str_of bad_type_body)
     = Inr (JObj [(str_of ''type'', JStr (str_of ''TXT'')),
                  (str_of ''sender_name'', JStr (str_of ''a'')),
                  (str_of ''sender_ip'', JStr (str_of ''b''))])"
proof -
  let ?v = "JObj [(str_of ''type'', JStr (str_of ''TXT'')),
                  (str_of ''sender_name'', JStr (str_of ''a'')),
                  (str_of ''sender_ip'', JStr (str_of ''b''))]"
  have a: "list_all (\<lambda>c. of_char c < (128::nat)) bad_type_body"
    by (simp add: bad_type_body_def)
  have j: "str_of bad_type_body = json_dumps ?v"
    by (simp add: bad_type_body_def str_of_def encode_basestring_ascii_def escape_char_def)
  have w: "wf_json ?v"
    by (simp add: wf_str_def str_of_def scalar_def)
  show "utf8_decode bad_type_body = Inr (str_of bad_type_body)"
    using a j w by (rule literal_loads(1))
  show "json_loads (str_of bad_type_body) = Inr ?v"
    using a j w by (rule literal_loads(2))
qed

lemma extra_key_loads:
  shows "utf8_decode extra_key_body = Inr (str_of extra_key_body)"
    and "json_loads (str_of extra_key_body)
     = Inr (JObj [(str_of ''type'', JStr (str_of ''TEXT'')),
                  (str_of ''sender_name'', JStr (str_of ''a'')),
                  (str_of ''sender_ip'', JStr (str_of ''b'')),
                  (str_of ''payload'', JObj []),
                  (str_of ''extra'', JInt 1)])"
proof -
  let ?v = "JObj [(str_of ''type'', JStr (str_of ''TEXT'')),
                  (str_of ''sender_name'', JStr (str_of ''a'')),
                  (str_of ''sender_ip'', JStr (str_of ''b'')),
                  (str_of ''payload'', JObj []),
                  (str_of ''extra'', JInt 1)]"
  have a: "list_all (\<lambda>c. of_char c < (128::nat)) extra_key_body"
    by (simp add: extra_key_body_def)
  have j: "str_of extra_key_body = json_dumps ?v"
    by (simp add: extra_key_body_def str_of_def encode_basestring_ascii_def escape_char_def int_repr_def digits_of.simps)
  have w: "wf_json ?v"
    by (simp add: wf_str_def str_of_def scalar_def)
  show "utf8_decode extra_key_body = Inr (str_of extra_key_body)"
    using a j w by (rule literal_loads(1))
  show "json_loads (str_of extra_key_body) = Inr ?v"
    using a j w by (rule literal_loads(2))
qed

text \<open>
  Claim C5, as amended. Decoding fails when the bytes are not UTF-8 (the error of
  \<open>bytes.decode\<close> is the result), when the parsed structure is not a dictionary or
  lacks \<open>type\<close>, \<open>sender_name\<close> or \<open>sender_ip\<close>, and when the value of \<open>type\<close> is
  not one of the seven names. A dictionary that has these three fields and no
  \<open>payload\<close> is accepted: the envelope has the payload \<open>None\<close>.
\<close>

theorem decode_rejects:
  "(utf8_decode data = Inl e \<longrightarrow> from_bytes data = Inl e)
   \<and> (utf8_decode data = Inr s \<and> json_loads s = Inr v \<and> lacks_required v \<longrightarrow>
        from_bytes data \<in> {Inl KeyError, Inl TypeError, Inl ValueError})
   \<and> (utf8_decode data = Inr s \<and> json_loads s = Inr (JObj d)
        \<and> map_of d (str_of ''type'') = Some tv \<and> \<not> recognized tv \<longrightarrow>
        from_bytes data = Inl ValueError)
   \<and> (utf8_decode data = Inr s \<and> json_loads s = Inr (JObj d)
        \<and> map_of d (str_of ''type'') = Some (JStr (MessageType_value t))
        \<and> map_of d (str_of ''sender_name'') = Some n
        \<and> map_of d (str_of ''sender_ip'') = Some i
        \<and> map_of d (str_of ''payload'') = None
        \<and> set (map fst d) \<subseteq> {str_of ''type'', str_of ''sender_name'', str_of ''sender_ip''} \<longrightarrow>
        from_bytes data = Inr \<lparr>type = t, sender_name = n, sender_ip = i, payload = JNull\<rparr>)"
  using from_data_lacks [of v] from_data_unrecognized [of d tv] from_data_no_payload [of d t n i]
  by (auto simp: from_bytes_cases)

theorem decode_rejects_witness:
  "from_bytes [CHR 0xFF] = Inl UnicodeDecodeError
   \<and> lacks_required (JObj [(str_of ''type'', JStr (str_of ''TEXT'')),
                           (str_of ''sender_name'', JStr (str_of ''a''))])
   \<and> from_bytes no_sender_ip_body \<in> {Inl KeyError, Inl TypeError, Inl ValueError}
   \<and> \<not> recognized (JStr (str_of ''TXT''))
   \<and> from_bytes bad_type_body = Inl ValueError
   \<and> from_bytes no_payload_body
       = Inr \<lparr>type = TEXT, sender_name = JStr (str_of ''a''), sender_ip = JStr (str_of ''b''),
              payload = JNull\<rparr>"
proof -
  have u: "utf8_decode [CHR 0xFF] = Inl UnicodeDecodeError"
    by (simp add: utf8_decode_def)
  have l: "lacks_required (JObj [(str_of ''type'', JStr (str_of ''TEXT'')),
                           (str_of ''sender_name'', JStr (str_of ''a''))])"
    by (simp add: lacks_required_def str_of_def)
  have r: "\<not> recognized (JStr (str_of ''TXT''))"
    by (simp add: recognized_def str_of_def)
  have a: "from_bytes [CHR 0xFF] = Inl UnicodeDecodeError"
    using decode_rejects [of "[CHR 0xFF]" UnicodeDecodeError] u by blast
  have b: "from_bytes no_sender_ip_body \<in> {Inl KeyError, Inl TypeError, Inl ValueError}"
    using decode_rejects [of no_sender_ip_body _ "str_of no_sender_ip_body"
        "JObj [(str_of ''type'', JStr (str_of ''TEXT'')),
               (str_of ''sender_name'', JStr (str_of ''a''))]"]
      no_sender_ip_loads l by blast
  have c: "from_bytes bad_type_body = Inl ValueError"
    using decode_rejects [of bad_type_body _ "str_of bad_type_body" _
        "[(str_of ''type'', JStr (str_of ''TXT'')),
          (str_of ''sender_name'', JStr (str_of ''a'')),
          (str_of ''sender_ip'', JStr (str_of ''b''))]" "JStr (str_of ''TXT'')"]
      bad_type_loads r by simp
  have d: "from_bytes no_payload_body
       = Inr \<lparr>type = TEXT, sender_name = JStr (str_of ''a''), sender_ip = JStr (str_of ''b''),
              payload = JNull\<rparr>"
    using decode_rejects [of no_payload_body _ "str_of no_payload_body" _
        "[(str_of ''type'', JStr (str_of ''TEXT'')),
          (str_of ''sender_name'', JStr (str_of ''a'')),
          (str_of ''sender_ip'', JStr (str_of ''b''))]" _ TEXT "JStr (str_of ''a'')"
        "JStr (str_of ''b'')"]
      no_payload_loads field_names_distinct by (simp add: str_of_def)
  from a l b r c d show ?thesis by blast
qed

text \<open>
  Claim C5 as stated fails for \<open>payload\<close>, one of the four fields of the envelope: a
  structure without it is decoded.
\<close>

theorem decode_accepts_missing_payload_counterexample:
  "json_loads (str_of no_payload_body)
     = Inr (JObj [(str_of ''type'', JStr (str_of ''TEXT'')),
                  (str_of ''sender_name'', JStr (str_of ''a'')),
                  (str_of ''sender_ip'', JStr (str_of ''b''))])
   \<and> from_bytes no_payload_body
       = Inr \<lparr>type = TEXT, sender_name = JStr (str_of ''a''), sender_ip = JStr (str_of ''b''),
              payload = JNull\<rparr>"
proof -
  let ?d = "[(str_of ''type'', JStr (str_of ''TEXT'')),
             (str_of ''sender_name'', JStr (str_of ''a'')),
             (str_of ''sender_ip'', JStr (str_of ''b''))]"
  have "from_data (JObj ?d)
      = Inr \<lparr>type = TEXT, sender_name = JStr (str_of ''a''), sender_ip = JStr (str_of ''b''),
             payload = JNull\<rparr>"
    using from_data_no_payload [of ?d TEXT "JStr (str_of ''a'')" "JStr (str_of ''b'')"]
      field_names_distinct by (simp add: str_of_def)
  then show ?thesis
    using no_payload_loads by (simp add: from_bytes_cases)
qed

text \<open>
  Claim C10. When the bytes are UTF-8 and parse to a dictionary with a key other than
  \<open>type\<close>, \<open>sender_name\<close>, \<open>sender_ip\<close> and \<open>payload\<close>, decoding fails: with
  \<open>KeyError\<close> or \<open>ValueError\<close> when \<open>type\<close> is missing or unknown, with \<open>TypeError\<close>
  otherwise.
\<close>

theorem extra_keys_rejected:
  assumes "utf8_decode data = Inr s" and "json_loads s = Inr (JObj d)"
    and "k \<in> set (map fst d)"
    and "k \<notin> {str_of ''type'', str_of ''sender_name'', str_of ''sender_ip'', str_of ''payload''}"
  shows "from_bytes data \<in> {Inl KeyError, Inl TypeError, Inl ValueError}"
  using assms from_data_extra [of k d] by (simp add: from_bytes_cases)

theorem extra_keys_rejected_witness:
  "utf8_decode extra_key_body = Inr (str_of extra_key_body)
   \<and> json_loads (str_of extra_key_body)
       = Inr (JObj [(str_of ''type'', JStr (str_of ''TEXT'')),
                    (str_of ''sender_name'', JStr (str_of ''a'')),
                    (str_of ''sender_ip'', JStr (str_of ''b'')),
                    (str_of ''payload'', JObj []),
                    (str_of ''extra'', JInt 1)])
   \<and> from_bytes extra_key_body = Inl TypeError"
proof -
  let ?d = "[(str_of ''type'', JStr (str_of ''TEXT'')),
             (str_of ''sender_name'', JStr (str_of ''a'')),
             (str_of ''sender_ip'', JStr (str_of ''b'')),
             (str_of ''payload'', JObj []),
             (str_of ''extra'', JInt 1)]"
  have k: "str_of ''extra'' \<in> set (map fst ?d)" by simp
  have n: "str_of ''extra''
      \<notin> {str_of ''type'', str_of ''sender_name'', str_of ''sender_ip'', str_of ''payload''}"
    by (simp add: str_of_def)
  have "from_bytes extra_key_body \<in> {Inl KeyError, Inl TypeError, Inl ValueError}"
    using extra_keys_rejected [OF extra_key_loads k n] .
  moreover have "from_bytes extra_key_body = from_data (JObj ?d)"
    using extra_key_loads by (simp add: from_bytes_cases)
  moreover have "from_data (JObj ?d) = Inl TypeError"
    by (simp add: from_data_def MessageType_call_def MessageType_members_def Message_init_def
        str_of_def)
  ultimately show ?thesis using extra_key_loads by simp
qed

section \<open>Properties of the transport\<close>

lemma recv_spec:
  "0 < n \<Longrightarrow> recv n s = (chunk, s') \<Longrightarrow>
   chunk @ concat s' = concat s \<and> length chunk \<le> n \<and> (chunk = [] \<longrightarrow> s' = [] \<and> concat s = [])"
  by (induction s) (auto split: if_splits)

lemma recv_header:
  "length h = 4 \<Longrightarrow> recv 4 ((h @ c0) # cs) = (h, if c0 = [] then cs else c0 # cs)"
  by auto

lemma read_body_chunks:
  "[] \<notin> set cs \<Longrightarrow> length data + length (concat cs) = n \<Longrightarrow>
   read_body n data (cs @ rest) = (data @ concat cs, rest)"
proof (induction "n - length data" arbitrary: data cs rule: less_induct)
  case less
  show ?case
  proof (cases "length data < n")
    case False
    with less.prems have "length (concat cs) = 0" by linarith
    then have "\<forall>xs\<in>set cs. xs = []" by simp
    with less.prems(1) have "cs = []" by (cases cs) auto
    with False show ?thesis by (simp add: read_body.simps [of n data])
  next
    case True
    with less.prems obtain c cs' where cs: "cs = c # cs'" and c: "c \<noteq> []"
      by (cases cs) auto
    let ?k = "min (n - length data) BUFFER_SIZE"
    have k: "0 < ?k" using True by (simp add: BUFFER_SIZE_def)
    show ?thesis
    proof (cases "length c \<le> ?k")
      case le: True
      have r: "recv ?k (cs @ rest) = (c, cs' @ rest)"
        using cs c le by simp
      have "read_body n (data @ c) (cs' @ rest) = ((data @ c) @ concat cs', rest)"
        using less.prems cs c True by (intro less.hyps) auto
      then show ?thesis
        using True r c cs by (simp add: read_body.simps [of n data])
    next
      case gt: False
      have r: "recv ?k (cs @ rest) = (take ?k c, (drop ?k c # cs') @ rest)"
        using cs c gt by simp
      have ne: "take ?k c \<noteq> []" using c k by (cases c) auto
      have "read_body n (data @ take ?k c) ((drop ?k c # cs') @ rest)
          = ((data @ take ?k c) @ concat (drop ?k c # cs'), rest)"
        using less.prems cs c True gt k by (intro less.hyps) auto
      then show ?thesis
        using True r ne cs by (simp add: read_body.simps [of n data])
    qed
  qed
qed

lemma read_body_short:
  "length data + length (concat s) < n \<Longrightarrow> read_body n data s = (data @ concat s, [])"
proof (induction "length (concat s)" arbitrary: data s rule: less_induct)
  case less
  let ?k = "min (n - length data) BUFFER_SIZE"
  have k: "0 < ?k" using less.prems by (simp add: BUFFER_SIZE_def)
  obtain chunk s' where r: "recv ?k s = (chunk, s')" by (cases "recv ?k s")
  note sp = recv_spec [OF k r]
  show ?case
  proof (cases "chunk = []")
    case True
    with sp r less.prems show ?thesis by (simp add: read_body.simps [of n data])
  next
    case False
    from sp have l: "length chunk + length (concat s') = length (concat s)"
      by (metis length_append)
    with False have "length (concat s') < length (concat s)" by (cases chunk) auto
    moreover have "length (data @ chunk) + length (concat s') < n"
      using l less.prems by simp
    ultimately have "read_body n (data @ chunk) s' = ((data @ chunk) @ concat s', [])"
      by (rule less.hyps)
    with sp r False less.prems show ?thesis
      by (simp add: read_body.simps [of n data])
  qed
qed

lemma of_char_char_of_nat: "of_char (char_of (n::nat)) = n mod 256"
  by (simp add: of_char_of)

lemma int_to_bytes4_Inr:
  assumes "int_to_bytes4 n = Inr h"
  shows "length h = 4" and "int_from_bytes h = n"
proof -
  from assms have n: "n < 4294967296"
    and h: "h = [char_of (n div 16777216), char_of (n div 65536), char_of (n div 256), char_of n]"
    by (auto simp: int_to_bytes4_def split: if_splits)
  show "length h = 4" using h by simp
  define q1 where "q1 = n div 256"
  define q2 where "q2 = q1 div 256"
  define q3 where "q3 = q2 div 256"
  have d2: "n div 65536 = q2"
    unfolding q2_def q1_def by (simp add: div_mult2_eq [symmetric])
  have d3: "n div 16777216 = q3"
    unfolding q3_def q2_def q1_def by (simp add: div_mult2_eq [symmetric])
  have "q3 < 256" using n unfolding d3 [symmetric] by simp
  then have m3: "q3 mod 256 = q3" by simp
  have e2: "q3 * 256 + q2 mod 256 = q2" unfolding q3_def by simp
  have e1: "q2 * 256 + q1 mod 256 = q1" unfolding q2_def by simp
  have e0: "q1 * 256 + n mod 256 = n" unfolding q1_def by simp
  have "int_from_bytes h = ((q3 mod 256 * 256 + q2 mod 256) * 256 + q1 mod 256) * 256 + n mod 256"
    unfolding h d2 d3 by (simp add: int_from_bytes_def of_char_char_of_nat q1_def)
  also have "\<dots> = n" unfolding m3 e2 e1 e0 ..
  finally show "int_from_bytes h = n" .
qed


lemma handle_client_closed: "handle_client running ip [] = [SockClose]"
  by (simp add: handle_client.simps [of running ip "[]"])

lemma handle_client_frame:
  assumes "int_to_bytes4 (length data) = Inr h" and "concat (c0 # cs) = data"
    and "[] \<notin> set cs"
  shows "handle_client True ip ((h @ c0) # cs @ rest) =
    (case from_bytes data of
       Inl e \<Rightarrow> [LogError e, SockClose]
     | Inr msg0 \<Rightarrow>
         if type msg0 = FILE_DATA then
           (case handle_file_data (msg0\<lparr>sender_ip := JStr ip\<rparr>) of
              Inl e \<Rightarrow> [LogError e, SockClose]
            | Inr _ \<Rightarrow> handle_client True ip rest)
         else OnMessage (msg0\<lparr>sender_ip := JStr ip\<rparr>) # handle_client True ip rest)"
proof -
  note hb = int_to_bytes4_Inr [OF assms(1)]
  define cs' where "cs' = (if c0 = [] then cs else c0 # cs)"
  have ne: "h \<noteq> []" using hb(1) by auto
  have r: "recv 4 ((h @ c0) # cs @ rest) = (h, cs' @ rest)"
    using hb(1) ne by (simp add: cs'_def)
  have "[] \<notin> set cs'" and "concat cs' = data"
    using assms(2,3) by (auto simp: cs'_def)
  then have b: "read_body (length data) [] (cs' @ rest) = (data, rest)"
    using read_body_chunks [of cs' "[]" "length data" rest] by simp
  show ?thesis
    unfolding handle_client.simps [of True ip "(h @ c0) # cs @ rest"] r
    by (simp add: b hb(2) ne Let_def split: sum.splits)
qed

lemma handle_client_events:
  "OnMessage m \<in> set (handle_client running ip s) \<Longrightarrow>
   sender_ip m = JStr ip \<and> type m \<noteq> FILE_DATA"
proof (induction running ip s rule: handle_client.induct)
  case (1 running ip s)
  show ?case
  proof (cases running)
    case False
    with "1.prems" show ?thesis by (subst (asm) handle_client.simps) simp
  next
    case True
    obtain length_bytes s1 where r: "recv 4 s = (length_bytes, s1)" by (cases "recv 4 s")
    obtain data s2 where b: "read_body (int_from_bytes length_bytes) [] s1 = (data, s2)"
      by (cases "read_body (int_from_bytes length_bytes) [] s1")
    show ?thesis
    proof (cases "length_bytes = [] \<or> length data \<noteq> int_from_bytes length_bytes")
      case True
      with "1.prems" r b \<open>running\<close> show ?thesis
        by (subst (asm) handle_client.simps) (auto split: if_splits)
    next
      case ok: False
      show ?thesis
      proof (cases "from_bytes data")
        case (Inl e)
        with "1.prems" r b \<open>running\<close> ok show ?thesis
          by (subst (asm) handle_client.simps) (auto split: if_splits)
      next
        case (Inr msg0)
        let ?msg = "msg0\<lparr>sender_ip := JStr ip\<rparr>"
        show ?thesis
        proof (cases "type ?msg = FILE_DATA")
          case fd: True
          show ?thesis
          proof (cases "handle_file_data ?msg")
            case (Inl e)
            with "1.prems" r b \<open>running\<close> ok Inr fd show ?thesis
              by (subst (asm) handle_client.simps) (auto split: if_splits)
          next
            case u: (Inr u)
            from "1.prems" r b \<open>running\<close> ok Inr fd u
            have "OnMessage m \<in> set (handle_client running ip s2)"
              by (subst (asm) handle_client.simps) (auto split: if_splits)
            moreover have "\<not> \<not> running" using \<open>running\<close> by simp
            ultimately show ?thesis
              using "1.IH"(1) [OF _ r [symmetric] _ b [symmetric] _ Inr refl fd u] ok by auto
          qed
        next
          case nfd: False
          from "1.prems" r b \<open>running\<close> ok Inr nfd
          have "m = ?msg \<or> OnMessage m \<in> set (handle_client running ip s2)"
            by (subst (asm) handle_client.simps) (auto split: if_splits)
          then show ?thesis
          proof
            assume "m = ?msg"
            with nfd show ?thesis by simp
          next
            assume "OnMessage m \<in> set (handle_client running ip s2)"
            moreover have "\<not> \<not> running" using \<open>running\<close> by simp
            ultimately show ?thesis
              using "1.IH"(2) [OF _ r [symmetric] _ b [symmetric] _ Inr refl nfd] ok by auto
          qed
        qed
      qed
    qed
  qed
qed



text \<open>
  When the read of the length prefix returns its four bytes and the peer closes before
  the declared number of body bytes has arrived, however the bytes that did arrive were
  split, the run of the handler is the close of the socket and nothing else.
\<close>

lemma short_read_is_clean_close:
  assumes "recv 4 s = (length_bytes, s1)"
    and "length length_bytes = 4"
    and "length (concat s1) < int_from_bytes length_bytes"
  shows "handle_client running ip s = [SockClose]"
proof -
  have b: "read_body (int_from_bytes length_bytes) [] s1 = (concat s1, [])"
    using read_body_short [of "[]" s1 "int_from_bytes length_bytes"] assms(3) by simp
  have ne: "length_bytes \<noteq> []" using assms(2) by auto
  show ?thesis
    unfolding handle_client.simps [of running ip s] assms(1)
    using assms(3) by (simp add: b ne)
qed

lemma short_read_is_clean_close_example:
  "recv 4 [[CHR 0x00, CHR 0x00, CHR 0x00, CHR ''d''] @ replicate 15 (CHR ''x''), replicate 25 (CHR ''x'')]
     = ([CHR 0x00, CHR 0x00, CHR 0x00, CHR ''d''], [replicate 15 (CHR ''x''), replicate 25 (CHR ''x'')])
   \<and> length [CHR 0x00, CHR 0x00, CHR 0x00, CHR ''d''] = 4
   \<and> int_from_bytes [CHR 0x00, CHR 0x00, CHR 0x00, CHR ''d''] = 100
   \<and> length (concat [replicate 15 (CHR ''x''), replicate 25 (CHR ''x'')]) = 40
   \<and> handle_client True (str_of ''10.0.0.5'')
        [[CHR 0x00, CHR 0x00, CHR 0x00, CHR ''d''] @ replicate 15 (CHR ''x''), replicate 25 (CHR ''x'')]
      = [SockClose]"
proof -
  let ?h = "[CHR 0x00, CHR 0x00, CHR 0x00, CHR ''d'']"
  let ?s1 = "[replicate 15 (CHR ''x''), replicate 25 (CHR ''x'')]"
  have r: "recv 4 [?h @ replicate 15 (CHR ''x''), replicate 25 (CHR ''x'')] = (?h, ?s1)"
    by simp
  have l: "length ?h = 4" by simp
  have n: "int_from_bytes ?h = 100" by (simp add: int_from_bytes_def)
  have c: "length (concat ?s1) = 40" by simp
  have lt: "length (concat ?s1) < int_from_bytes ?h" unfolding n c by simp
  from short_read_is_clean_close [OF r l lt, of True "str_of ''10.0.0.5''"] r l n c
  show ?thesis by simp
qed

lemma handle_client_step:
  assumes "reads_frame s data s2"
  shows "handle_client True ip s =
    (case from_bytes data of
       Inl e \<Rightarrow> [LogError e, SockClose]
     | Inr msg0 \<Rightarrow>
         if type msg0 = FILE_DATA then
           (case handle_file_data (msg0\<lparr>sender_ip := JStr ip\<rparr>) of
              Inl e \<Rightarrow> [LogError e, SockClose]
            | Inr _ \<Rightarrow> handle_client True ip s2)
         else OnMessage (msg0\<lparr>sender_ip := JStr ip\<rparr>) # handle_client True ip s2)"
proof -
  obtain length_bytes s1 where r: "recv 4 s = (length_bytes, s1)" by (cases "recv 4 s")
  with assms have ne: "length_bytes \<noteq> []"
    and b: "read_body (int_from_bytes length_bytes) [] s1 = (data, s2)"
    and l: "length data = int_from_bytes length_bytes"
    by (simp_all add: reads_frame_def)
  show ?thesis
    unfolding handle_client.simps [of True ip s] r
    by (simp add: b l ne Let_def split: sum.splits)
qed

lemma reads_frame_chunks:
  assumes "int_to_bytes4 (length data) = Inr h" and "concat (c0 # cs) = data"
    and "[] \<notin> set cs"
  shows "reads_frame ((h @ c0) # cs @ rest) data rest"
proof -
  note hb = int_to_bytes4_Inr [OF assms(1)]
  define cs' where "cs' = (if c0 = [] then cs else c0 # cs)"
  have ne: "h \<noteq> []" using hb(1) by auto
  have r: "recv 4 ((h @ c0) # cs @ rest) = (h, cs' @ rest)"
    using hb(1) ne by (simp add: cs'_def)
  have "[] \<notin> set cs'" and "concat cs' = data"
    using assms(2,3) by (auto simp: cs'_def)
  then have b: "read_body (length data) [] (cs' @ rest) = (data, rest)"
    using read_body_chunks [of cs' "[]" "length data" rest] by simp
  show ?thesis
    unfolding reads_frame_def r by (simp add: b hb(2) ne)
qed

lemma reads_frame_whole:
  "int_to_bytes4 (length data) = Inr h \<Longrightarrow> reads_frame ((h @ data) # rest) data rest"
  using reads_frame_chunks [of data h data "[]" rest] by simp

lemma from_bytes_empty: "from_bytes [] = Inl JSONDecodeError"
  by (simp add: from_bytes_def utf8_decode_def from_json_def json_loads_def)

lemma handle_client_zero_prefix:
  assumes "recv 4 s = (length_bytes, s1)" "length_bytes \<noteq> []" "int_from_bytes length_bytes = 0"
  shows "handle_client True ip s = [LogError JSONDecodeError, SockClose]"
proof -
  have "read_body 0 [] s1 = ([], s1)" by (simp add: read_body.simps)
  then have "reads_frame s [] s1"
    using assms by (simp add: reads_frame_def)
  from handle_client_step [OF this] show ?thesis by (simp add: from_bytes_empty)
qed

lemma sender_ip_overwritten:
  assumes "reads_frame s d s2" and "reads_frame s' d' s2"
    and "from_bytes d = Inr m" and "from_bytes d' = Inr m'" and "m' = m\<lparr>sender_ip := x\<rparr>"
  shows "handle_client True ip s = handle_client True ip s'"
  using assms(3-5)
  by (simp add: handle_client_step [OF assms(1)] handle_client_step [OF assms(2)])

text \<open>
  Claim C4. Every envelope a run of the handler dispatches carries the peer address of
  the socket as its \<open>sender_ip\<close>. Two bodies that decode to envelopes differing only in
  \<open>sender_ip\<close> give the same run, whatever the sockets they were read from.
\<close>

theorem sender_ip_is_peer_address:
  "(OnMessage msg \<in> set (handle_client running ip sock) \<longrightarrow> sender_ip msg = JStr ip)
   \<and> (reads_frame s d s2 \<and> reads_frame s' d' s2
        \<and> from_bytes d = Inr m \<and> from_bytes d' = Inr m' \<and> m' = m\<lparr>sender_ip := x\<rparr> \<longrightarrow>
        handle_client True ip s = handle_client True ip s')"
  using handle_client_events [of msg running ip sock] sender_ip_overwritten [of s d s2 s' d' m m' x ip]
  by blast


lemma from_bytes_of_to_bytes:
  "valid_envelope m \<Longrightarrow> to_bytes m = Inr data \<Longrightarrow> from_bytes data = Inr m"
  using decode_encode_valid [of m] by (simp add: decode_encode_def)

lemma from_bytes_hi: "from_bytes hi_body = Inr (text_message (str_of ''alice'') (str_of ''hi''))"
  using valid_hi to_bytes_hi by (rule from_bytes_of_to_bytes)

lemma from_bytes_bye: "from_bytes bye_body = Inr (text_message (str_of ''alice'') (str_of ''bye''))"
proof (rule from_bytes_of_to_bytes)
  show "valid_envelope (text_message (str_of ''alice'') (str_of ''bye''))"
    by (simp add: valid_envelope_def text_message_def wf_str_def str_of_def scalar_def)
  show "to_bytes (text_message (str_of ''alice'') (str_of ''bye'')) = Inr bye_body"
    by (rule to_bytes_literal)
       (simp_all add: bye_body_def to_json_def text_message_def str_of_def
          encode_basestring_ascii_def escape_char_def)
qed

lemma from_bytes_spoofed:
  "from_bytes spoofed_body
     = Inr ((text_message (str_of ''alice'') (str_of ''hi''))\<lparr>sender_ip := JStr (str_of ''6.6.6.6'')\<rparr>)"
proof (rule from_bytes_of_to_bytes)
  show "valid_envelope ((text_message (str_of ''alice'') (str_of ''hi''))\<lparr>sender_ip := JStr (str_of ''6.6.6.6'')\<rparr>)"
    by (simp add: valid_envelope_def text_message_def wf_str_def str_of_def scalar_def)
  show "to_bytes ((text_message (str_of ''alice'') (str_of ''hi''))\<lparr>sender_ip := JStr (str_of ''6.6.6.6'')\<rparr>)
      = Inr spoofed_body"
    by (rule to_bytes_literal)
       (simp_all add: spoofed_body_def to_json_def text_message_def str_of_def
          encode_basestring_ascii_def escape_char_def)
qed


lemma int_to_bytes4_small:
  "n < 256 \<Longrightarrow> int_to_bytes4 n = Inr [CHR 0x00, CHR 0x00, CHR 0x00, char_of n]"
  by (simp add: int_to_bytes4_def char_of_def)

lemma int_to_bytes4_char:
  "int_to_bytes4 (of_char c) = Inr [CHR 0x00, CHR 0x00, CHR 0x00, c]"
proof -
  have "(of_char c :: nat) < 256" by simp
  from int_to_bytes4_small [OF this] show ?thesis by simp
qed

lemma header_hi: "int_to_bytes4 (length hi_body) = Inr [CHR 0x00, CHR 0x00, CHR 0x00, CHR ''T'']"
proof -
  have "length hi_body = of_char (CHR ''T'')" by (simp add: hi_body_def)
  then show ?thesis by (simp only: int_to_bytes4_char)
qed

lemma header_bye: "int_to_bytes4 (length bye_body) = Inr [CHR 0x00, CHR 0x00, CHR 0x00, CHR ''U'']"
proof -
  have "length bye_body = of_char (CHR ''U'')" by (simp add: bye_body_def)
  then show ?thesis by (simp only: int_to_bytes4_char)
qed

lemma header_spoofed:
  "int_to_bytes4 (length spoofed_body) = Inr [CHR 0x00, CHR 0x00, CHR 0x00, CHR ''['']"
proof -
  have "length spoofed_body = of_char (CHR ''['')" by (simp add: spoofed_body_def)
  then show ?thesis by (simp only: int_to_bytes4_char)
qed


lemma handle_hi:
  "handle_client True ip (([CHR 0x00, CHR 0x00, CHR 0x00, CHR ''T''] @ hi_body) # rest)
     = OnMessage ((text_message (str_of ''alice'') (str_of ''hi''))\<lparr>sender_ip := JStr ip\<rparr>)
       # handle_client True ip rest"
  using handle_client_step [OF reads_frame_whole [OF header_hi, of rest], of ip]
  by (simp add: from_bytes_hi text_message_def)

lemma handle_bye:
  "handle_client True ip (([CHR 0x00, CHR 0x00, CHR 0x00, CHR ''U''] @ bye_body) # rest)
     = OnMessage ((text_message (str_of ''alice'') (str_of ''bye''))\<lparr>sender_ip := JStr ip\<rparr>)
       # handle_client True ip rest"
  using handle_client_step [OF reads_frame_whole [OF header_bye, of rest], of ip]
  by (simp add: from_bytes_bye text_message_def)

theorem sender_ip_is_peer_address_witness:
  "reads_frame [[CHR 0x00, CHR 0x00, CHR 0x00, CHR ''T''] @ hi_body] hi_body []
   \<and> reads_frame [[CHR 0x00, CHR 0x00, CHR 0x00, CHR ''[''] @ spoofed_body] spoofed_body []
   \<and> from_bytes hi_body = Inr (text_message (str_of ''alice'') (str_of ''hi''))
   \<and> from_bytes spoofed_body
       = Inr ((text_message (str_of ''alice'') (str_of ''hi''))\<lparr>sender_ip := JStr (str_of ''6.6.6.6'')\<rparr>)
   \<and> handle_client True (str_of ''10.0.0.5'') [[CHR 0x00, CHR 0x00, CHR 0x00, CHR ''T''] @ hi_body]
       = [OnMessage ((text_message (str_of ''alice'') (str_of ''hi''))\<lparr>sender_ip := JStr (str_of ''10.0.0.5'')\<rparr>),
          SockClose]
   \<and> handle_client True (str_of ''10.0.0.5'') [[CHR 0x00, CHR 0x00, CHR 0x00, CHR ''[''] @ spoofed_body]
       = [OnMessage ((text_message (str_of ''alice'') (str_of ''hi''))\<lparr>sender_ip := JStr (str_of ''10.0.0.5'')\<rparr>),
          SockClose]
   \<and> sender_ip ((text_message (str_of ''alice'') (str_of ''hi''))\<lparr>sender_ip := JStr (str_of ''10.0.0.5'')\<rparr>)
       = JStr (str_of ''10.0.0.5'')"
proof -
  let ?ip = "str_of ''10.0.0.5''"
  let ?m = "text_message (str_of ''alice'') (str_of ''hi'')"
  let ?s = "[[CHR 0x00, CHR 0x00, CHR 0x00, CHR ''T''] @ hi_body]"
  let ?s' = "[[CHR 0x00, CHR 0x00, CHR 0x00, CHR ''[''] @ spoofed_body]"
  have r: "reads_frame ?s hi_body []" by (rule reads_frame_whole [OF header_hi])
  have r': "reads_frame ?s' spoofed_body []" by (rule reads_frame_whole [OF header_spoofed])
  have h: "handle_client True ?ip ?s = [OnMessage (?m\<lparr>sender_ip := JStr ?ip\<rparr>), SockClose]"
    by (simp only: handle_hi handle_client_closed)
  note t = sender_ip_is_peer_address [of "?m\<lparr>sender_ip := JStr ?ip\<rparr>" True ?ip ?s ?s hi_body "[]" ?s'
      spoofed_body ?m "?m\<lparr>sender_ip := JStr (str_of ''6.6.6.6'')\<rparr>" "JStr (str_of ''6.6.6.6'')"]
  from t r r' from_bytes_hi from_bytes_spoofed
  have e: "handle_client True ?ip ?s = handle_client True ?ip ?s'" by blast
  from t h have i: "sender_ip (?m\<lparr>sender_ip := JStr ?ip\<rparr>) = JStr ?ip" by simp
  from r r' from_bytes_hi from_bytes_spoofed h e i show ?thesis by simp
qed


text \<open>
  Claim C2 fails on the code. The frames of two text messages, delivered frame by frame,
  are dispatched in order; delivered one byte at a time, the first \<open>recv(4)\<close> returns
  a single byte of the prefix, the handler takes it for the whole prefix, decodes an
  empty body, logs the error and closes. Neither envelope is dispatched.
\<close>

theorem split_prefix_breaks_framing:
  "frame (text_message (str_of ''alice'') (str_of ''hi''))
     = Inr ([CHR 0x00, CHR 0x00, CHR 0x00, CHR ''T''] @ hi_body)
   \<and> frame (text_message (str_of ''alice'') (str_of ''bye''))
     = Inr ([CHR 0x00, CHR 0x00, CHR 0x00, CHR ''U''] @ bye_body)
   \<and> handle_client True (str_of ''10.0.0.5'')
        [[CHR 0x00, CHR 0x00, CHR 0x00, CHR ''T''] @ hi_body,
         [CHR 0x00, CHR 0x00, CHR 0x00, CHR ''U''] @ bye_body]
     = [OnMessage ((text_message (str_of ''alice'') (str_of ''hi''))\<lparr>sender_ip := JStr (str_of ''10.0.0.5'')\<rparr>),
        OnMessage ((text_message (str_of ''alice'') (str_of ''bye''))\<lparr>sender_ip := JStr (str_of ''10.0.0.5'')\<rparr>),
        SockClose]
   \<and> handle_client True (str_of ''10.0.0.5'')
        (map (\<lambda>b. [b])
           (([CHR 0x00, CHR 0x00, CHR 0x00, CHR ''T''] @ hi_body)
            @ ([CHR 0x00, CHR 0x00, CHR 0x00, CHR ''U''] @ bye_body)))
     = [LogError JSONDecodeError, SockClose]"
proof -
  have f1: "frame (text_message (str_of ''alice'') (str_of ''hi''))
     = Inr ([CHR 0x00, CHR 0x00, CHR 0x00, CHR ''T''] @ hi_body)"
    by (simp add: frame_def to_bytes_hi header_hi)
  have tb: "to_bytes (text_message (str_of ''alice'') (str_of ''bye'')) = Inr bye_body"
    by (rule to_bytes_literal)
       (simp_all add: bye_body_def to_json_def text_message_def str_of_def
          encode_basestring_ascii_def escape_char_def)
  have f2: "frame (text_message (str_of ''alice'') (str_of ''bye''))
     = Inr ([CHR 0x00, CHR 0x00, CHR 0x00, CHR ''U''] @ bye_body)"
    by (simp add: frame_def tb header_bye)
  have g: "handle_client True (str_of ''10.0.0.5'')
        [[CHR 0x00, CHR 0x00, CHR 0x00, CHR ''T''] @ hi_body,
         [CHR 0x00, CHR 0x00, CHR 0x00, CHR ''U''] @ bye_body]
     = [OnMessage ((text_message (str_of ''alice'') (str_of ''hi''))\<lparr>sender_ip := JStr (str_of ''10.0.0.5'')\<rparr>),
        OnMessage ((text_message (str_of ''alice'') (str_of ''bye''))\<lparr>sender_ip := JStr (str_of ''10.0.0.5'')\<rparr>),
        SockClose]"
    by (simp only: handle_hi handle_bye handle_client_closed)
  obtain tail where m: "map (\<lambda>b. [b])
           (([CHR 0x00, CHR 0x00, CHR 0x00, CHR ''T''] @ hi_body)
            @ ([CHR 0x00, CHR 0x00, CHR 0x00, CHR ''U''] @ bye_body)) = [CHR 0x00] # tail"
    by simp
  have "recv 4 ([CHR 0x00] # tail) = ([CHR 0x00], tail)" by simp
  moreover have "int_from_bytes [CHR 0x00] = 0" by (simp add: int_from_bytes_def)
  ultimately have b: "handle_client True (str_of ''10.0.0.5'') ([CHR 0x00] # tail)
      = [LogError JSONDecodeError, SockClose]"
    by (intro handle_client_zero_prefix) simp_all
  from f1 f2 g b show ?thesis unfolding m by simp
qed

text \<open>
  Claim C6 fails on the code. A prefix that declares 100 bytes, followed by 40 bytes and
  the close, ends the run quietly when the prefix arrives in one piece. When the
  transport splits the prefix in two, the handler decodes an empty body and logs an
  error before it closes.
\<close>

theorem short_read_split_prefix:
  "handle_client True (str_of ''10.0.0.5'')
     [[CHR 0x00, CHR 0x00, CHR 0x00, CHR ''d''], replicate 40 (CHR ''x'')] = [SockClose]
   \<and> handle_client True (str_of ''10.0.0.5'')
     [[CHR 0x00, CHR 0x00], [CHR 0x00, CHR ''d''], replicate 40 (CHR ''x'')]
     = [LogError JSONDecodeError, SockClose]"
proof -
  have r: "recv 4 [[CHR 0x00, CHR 0x00, CHR 0x00, CHR ''d''], replicate 40 (CHR ''x'')]
      = ([CHR 0x00, CHR 0x00, CHR 0x00, CHR ''d''], [replicate 40 (CHR ''x'')])"
    by simp
  have l: "length [CHR 0x00, CHR 0x00, CHR 0x00, CHR ''d''] = 4" by simp
  have lt: "length (concat [replicate 40 (CHR ''x'')])
      < int_from_bytes [CHR 0x00, CHR 0x00, CHR 0x00, CHR ''d'']"
    by (simp add: int_from_bytes_def)
  have a: "handle_client True (str_of ''10.0.0.5'')
     [[CHR 0x00, CHR 0x00, CHR 0x00, CHR ''d''], replicate 40 (CHR ''x'')] = [SockClose]"
    using r l lt by (rule short_read_is_clean_close)
  have "recv 4 [[CHR 0x00, CHR 0x00], [CHR 0x00, CHR ''d''], replicate 40 (CHR ''x'')]
      = ([CHR 0x00, CHR 0x00], [[CHR 0x00, CHR ''d''], replicate 40 (CHR ''x'')])"
    by simp
  moreover have "int_from_bytes [CHR 0x00, CHR 0x00] = 0" by (simp add: int_from_bytes_def)
  ultimately have b: "handle_client True (str_of ''10.0.0.5'')
     [[CHR 0x00, CHR 0x00], [CHR 0x00, CHR ''d''], replicate 40 (CHR ''x'')]
     = [LogError JSONDecodeError, SockClose]"
    by (intro handle_client_zero_prefix) simp_all
  from a b show ?thesis by simp
qed

end
